theory Spec2Isabelle
  imports Complex_Main "HOL-Library.Word"
begin

section \<open>Library functions used by the crash manager\<close>

subsection \<open>\<^verbatim>\<open>std::to_string\<close> on integers\<close>

definition digit_char :: "nat \<Rightarrow> char" where
  "digit_char d = ''0123456789'' ! d"

fun to_string_nat :: "nat \<Rightarrow> string" where
  "to_string_nat n =
     (if n < 10 then [digit_char n] else to_string_nat (n div 10) @ [digit_char (n mod 10)])"

declare to_string_nat.simps [simp del]

definition to_string_int :: "int \<Rightarrow> string" where
  "to_string_int i =
     (if i < 0 then CHR ''-'' # to_string_nat (nat (- i)) else to_string_nat (nat i))"

subsection \<open>Conversion of a \<^verbatim>\<open>uint64_t\<close> to \<^verbatim>\<open>double\<close>\<close>

text \<open>
  A double has a significand of 53 bits. \<open>excess_bits n\<close> is the number of low bits
  of \<open>n\<close> that do not fit; the conversion rounds them away to the nearest
  representable value, ties to the even significand. Every other operation that
  \<^verbatim>\<open>PrettyBytes\<close> performs on the double (comparison with 1024, division by 1024,
  \<^verbatim>\<open>floor\<close>, subtraction of the floor) is exact in binary floating point, so the value
  is modelled as the real number it denotes.
\<close>

function excess_bits :: "nat \<Rightarrow> nat" where
  "excess_bits n = (if n < 9007199254740992 then 0 else Suc (excess_bits (n div 2)))"
  by pat_completeness auto
termination
proof (relation "measure id")
  show "wf (measure id)" by simp
next
  fix n :: nat
  assume "\<not> n < 9007199254740992"
  then have "0 < n" by (cases "n = 0") simp_all
  then show "(n div 2, n) \<in> measure id" by simp
qed

declare excess_bits.simps [simp del]

definition to_double :: "nat \<Rightarrow> real" where
  "to_double n =
     (let e = excess_bits n; q = n div 2 ^ e; r = n mod 2 ^ e
      in if e = 0 then real n
         else if 2 ^ (e - 1) < r \<or> (r = 2 ^ (e - 1) \<and> odd q) then real ((q + 1) * 2 ^ e)
         else real (q * 2 ^ e))"

subsection \<open>\<^verbatim>\<open>sprintf\<close> with \<^verbatim>\<open>"%.1f"\<close>\<close>

text \<open>
  One digit after the point, rounded to nearest. A value exactly half way between two
  candidates is rounded to the even one by an IEEE-conforming C runtime and upwards by
  the older Windows runtime; \<open>legacy_crt\<close> selects the latter. The argument is never
  negative here.
\<close>

definition sprintf_1f :: "bool \<Rightarrow> real \<Rightarrow> string" where
  "sprintf_1f legacy_crt x =
     (let t = x * 10; f = \<lfloor>t\<rfloor>; d = t - of_int f;
          r = (if 1 / 2 < d \<or> (d = 1 / 2 \<and> (legacy_crt \<or> odd f)) then f + 1 else f)
      in to_string_int (r div 10) @ ''.'' @ to_string_int (r mod 10))"

section \<open>\<^verbatim>\<open>PrettyBytes\<close>\<close>

definition suffixes :: "string list" where
  "suffixes = [''b'', ''kb'', ''mb'', ''gb'', ''tb'', ''pb'', ''eb'']"

text \<open>The loop \<^verbatim>\<open>while (count >= 1024 && s < 7) { s++; count /= 1024; }\<close>.\<close>

function PrettyBytes_loop :: "real \<Rightarrow> nat \<Rightarrow> real \<times> nat" where
  "PrettyBytes_loop count s =
     (if count \<ge> 1024 \<and> s < 7 then PrettyBytes_loop (count / 1024) (s + 1) else (count, s))"
  by pat_completeness auto
termination
  by (relation "measure (\<lambda>(count, s). 7 - s)") auto

declare PrettyBytes_loop.simps [simp del]

text \<open>
  \<^verbatim>\<open>suffixes\<close> has seven elements; reading \<^verbatim>\<open>suffixes[7]\<close> is out of bounds, which the
  model reports as \<open>None\<close>.
\<close>

definition PrettyBytes :: "bool \<Rightarrow> 64 word \<Rightarrow> string option" where
  "PrettyBytes legacy_crt bytes =
     (let (count, s) = PrettyBytes_loop (to_double (unat bytes)) 0
      in if s < 7
         then Some (if count - of_int \<lfloor>count\<rfloor> = 0
                    then to_string_int \<lfloor>count\<rfloor> @ suffixes ! s
                    else sprintf_1f legacy_crt count @ suffixes ! s)
         else None)"

section \<open>\<^verbatim>\<open>std::string\<close> searches\<close>

fun starts_with :: "string \<Rightarrow> string \<Rightarrow> bool" where
  "starts_with hay [] = True"
| "starts_with [] (c # cs) = False"
| "starts_with (h # hs) (c # cs) = (h = c \<and> starts_with hs cs)"

text \<open>\<^verbatim>\<open>hay.find(needle)\<close>: the first position where \<open>needle\<close> occurs, \<open>None\<close> for \<^verbatim>\<open>npos\<close>.\<close>

fun string_find :: "string \<Rightarrow> string \<Rightarrow> nat option" where
  "string_find [] needle = (if needle = [] then Some 0 else None)"
| "string_find (h # hs) needle =
     (if starts_with (h # hs) needle then Some 0 else map_option Suc (string_find hs needle))"

text \<open>\<^verbatim>\<open>str.rfind(c)\<close>: the last position of the character.\<close>

fun string_rfind :: "string \<Rightarrow> char \<Rightarrow> nat option" where
  "string_rfind [] c = None"
| "string_rfind (x # xs) c =
     (case string_rfind xs c of
        Some i \<Rightarrow> Some (Suc i)
      | None \<Rightarrow> if x = c then Some 0 else None)"

fun find_first_not_of :: "string \<Rightarrow> char \<Rightarrow> nat option" where
  "find_first_not_of [] c = None"
| "find_first_not_of (x # xs) c =
     (if x \<noteq> c then Some 0 else map_option Suc (find_first_not_of xs c))"

text \<open>\<^verbatim>\<open>::tolower\<close> on the characters of an address.\<close>

definition tolower :: "char \<Rightarrow> char" where
  "tolower c =
     (case map_of (zip ''ABCDEFGHIJKLMNOPQRSTUVWXYZ'' ''abcdefghijklmnopqrstuvwxyz'') c of
        Some l \<Rightarrow> l
      | None \<Rightarrow> c)"

section \<open>JSON values\<close>

datatype json =
    JNull
  | JBool bool
  | JNumber int
  | JString string
  | JArray "json list"
  | JObject "(string \<times> json) list"

text \<open>
  \<^verbatim>\<open>push_back\<close> turns a null value into an array and appends to an array. (On any other
  value the library throws; the crash manager only calls it on values that start null.)
\<close>

fun json_push_back :: "json \<Rightarrow> json \<Rightarrow> json" where
  "json_push_back JNull v = JArray [v]"
| "json_push_back (JArray vs) v = JArray (vs @ [v])"
| "json_push_back j v = j"

text \<open>
  The conversion of a JSON value to \<^verbatim>\<open>std::string\<close> as the JSON library documents it
  (\<^verbatim>\<open>get<std::string>()\<close>): the content of a JSON string, and a \<^verbatim>\<open>type_error\<close>
  exception (\<open>None\<close>) for a value of any other type.
\<close>

fun nlohmann_get_string :: "json \<Rightarrow> string option" where
  "nlohmann_get_string (JString s) = Some s"
| "nlohmann_get_string j = None"

section \<open>State of the crash manager and its environment\<close>

text \<open>
  The global variables of \<^verbatim>\<open>util-crashmanager.cpp\<close>, the static latch of
  \<^verbatim>\<open>HandleCrash\<close>, and the log buffers of \<^verbatim>\<open>OBS_API\<close> that \<^verbatim>\<open>RequestOBSLog\<close> reads.
  \<open>annotations\<close> is the \<^verbatim>\<open>std::map<std::string, std::string>\<close>. \<open>handlerStarts\<close> logs
  the calls of \<^verbatim>\<open>client.StartHandler\<close> with the annotations and arguments passed.
\<close>

record crash_manager =
  handledOBSCrashes :: "string list"
  breadcrumbs :: "string list"
  warnings :: "string list"
  annotations :: "string \<rightharpoonup> string"
  arguments :: "string list"
  insideCrashMethod :: bool
  obsLogErrors :: "string list"
  obsLogWarnings :: "string list"
  obsLogGeneral :: "string list"
  handlerStarts :: "((string \<rightharpoonup> string) \<times> string list) list"

text \<open>The state of a process in which nothing has been configured or logged yet.\<close>

definition initial_state :: crash_manager where
  "initial_state =
     \<lparr>handledOBSCrashes = [], breadcrumbs = [], warnings = [], annotations = Map.empty,
      arguments = [], insideCrashMethod = False, obsLogErrors = [], obsLogWarnings = [],
      obsLogGeneral = [], handlerStarts = []\<rparr>"

text \<open>What one entry of \<^verbatim>\<open>callers_stack\<close> resolves to.\<close>

record symbol_info =
  sym_Name :: string
  sym_Address :: nat

record line_info =
  line_FileName :: string
  line_LineNumber :: nat

record raw_frame =
  address_text :: string
  symFromAddr :: "symbol_info option"
  symGetLineFromAddr64 :: "line_info option"

text \<open>
  The answers of the platform, of the OBS library and of the library functions that are
  not modelled: \<open>address_text\<close> above is what \<^verbatim>\<open>buffer << callers_stack[i]\<close> prints,
  \<open>captureAvailable\<close> says that \<^verbatim>\<open>RtlCaptureStackBackTrace\<close> was found, \<open>callers_stack\<close>
  is what it captures (innermost frame first), \<open>totalCPUUsed\<close> is \<^verbatim>\<open>int(totalCPUUsed)\<close>,
  \<open>computerName\<close> is \<open>None\<close> when \<^verbatim>\<open>GetComputerName\<close> fails, \<open>double_ratio_to_string a b\<close>
  is \<^verbatim>\<open>std::to_string(double(a) / double(b))\<close>, \<open>json_dump\<close> is \<^verbatim>\<open>dump(4)\<close>,
  \<open>json_to_std_string\<close> is the implicit conversion of a JSON value to \<^verbatim>\<open>std::string\<close>
  (\<open>None\<close> when it throws; \<open>nlohmann_get_string\<close> is what the library documents), \<open>legacy_crt\<close>
  is the rounding of \<^verbatim>\<open>sprintf\<close>, \<open>processList\<close> is the result of \<^verbatim>\<open>RequestProcessList\<close>,
  \<open>database_initialized\<close>, \<open>startHandler_ok\<close> and \<open>waitForHandlerStart_ok\<close> are the answers
  of Crashpad, and \<open>destroyOBS_API_throws\<close>, \<open>obs_initialized_after_destroy\<close> describe
  \<^verbatim>\<open>OBS_API::destroyOBS_API\<close>. The model is that of the release build on Windows (in a
  debug build \<^verbatim>\<open>HandleCrash\<close> has an empty body); the library calls other than the
  conversion to \<^verbatim>\<open>std::string\<close> are taken to return.
\<close>

record environment =
  obs_initialized :: bool
  bnum_allocs :: int
  totalPhysMem :: "64 word"
  physMemUsed :: "64 word"
  physMemUsedByMe :: "64 word"
  totalCPUUsed :: int
  computerName :: "string option"
  timeElapsed :: int
  processList :: json
  captureAvailable :: bool
  callers_stack :: "raw_frame list"
  legacy_crt :: bool
  double_ratio_to_string :: "int \<Rightarrow> int \<Rightarrow> string"
  json_dump :: "json \<Rightarrow> string"
  json_to_std_string :: "json \<Rightarrow> string option"
  database_initialized :: bool
  startHandler_ok :: bool
  waitForHandlerStart_ok :: bool
  destroyOBS_API_throws :: bool
  obs_initialized_after_destroy :: bool

text \<open>How a call ends: it returns, or the process is ended by \<^verbatim>\<open>abort\<close> or \<^verbatim>\<open>exit\<close>.\<close>

datatype 'r outcome =
    Returned 'r crash_manager
  | Aborted crash_manager
  | Exited int crash_manager

section \<open>\<^verbatim>\<open>Configure\<close>\<close>

definition Configure :: "crash_manager \<Rightarrow> crash_manager" where
  "Configure s = s\<lparr>handledOBSCrashes := handledOBSCrashes s @ [''Failed to recreate D3D11'']\<rparr>"

section \<open>The diagnostic log\<close>




section \<open>\<^verbatim>\<open>RewindCallStack\<close>\<close>

record stack_entry =
  entry_function :: string
  entry_filename :: string
  entry_lineno :: nat
  entry_instruction_addr :: string
  entry_symbol_addr :: string
  entry_in_app :: "bool option"
  entry_frames_omitted :: "(string \<times> string) option"

text \<open>The loop variables: \<^verbatim>\<open>missingFrames\<close>, \<^verbatim>\<open>result\<close> and \<^verbatim>\<open>crashedMethod\<close>.\<close>

record rewind_state =
  missingFrames :: "int list"
  result :: "stack_entry list"
  crashedMethod :: string

definition fileName_of :: "string \<Rightarrow> string" where
  "fileName_of fullPath =
     (case string_rfind fullPath (CHR 0x5C) of
        Some pos \<Rightarrow> drop (pos + 1) fullPath
      | None \<Rightarrow> [])"

definition shorten_address :: "string \<Rightarrow> string" where
  "shorten_address instructionAddress =
     (case find_first_not_of instructionAddress (CHR ''0'') of
        Some pos \<Rightarrow> if pos \<le> 4 then drop (pos + 1) instructionAddress else instructionAddress
      | None \<Rightarrow> instructionAddress)"

text \<open>The body of the loop for frame \<open>i\<close>.\<close>

definition rewind_frame :: "raw_frame \<Rightarrow> nat \<Rightarrow> rewind_state \<Rightarrow> rewind_state" where
  "rewind_frame frame i st =
     (case (symFromAddr frame, symGetLineFromAddr64 frame) of
        (Some symbol, Some line) \<Rightarrow>
          (let fileName = fileName_of (line_FileName line);
               functionName = sym_Name symbol
           in if fileName = ''util-crashmanager.cpp'' then st
              else
                let entry =
                  \<lparr>entry_function = functionName,
                   entry_filename = fileName,
                   entry_lineno = line_LineNumber line,
                   entry_instruction_addr =
                     ''0x'' @ map tolower (shorten_address (address_text frame)),
                   entry_symbol_addr = ''0x'' @ map tolower (to_string_nat (sym_Address symbol)),
                   entry_in_app =
                     (if take 5 functionName = ''std::'' \<or> take 2 functionName = ''__''
                      then Some False else None),
                   entry_frames_omitted =
                     (if missingFrames st \<noteq> []
                      then Some (to_string_int (last (missingFrames st)), to_string_int (int i))
                      else None)\<rparr>
                in \<lparr>missingFrames = [], result = result st @ [entry],
                    crashedMethod = functionName\<rparr>)
      | _ \<Rightarrow> st\<lparr>missingFrames := missingFrames st @ [int i]\<rparr>)"

datatype rewind_error = StackIndexOutOfRange

text \<open>
  \<^verbatim>\<open>for (int i = frames - 1; i >= int(skip); i--)\<close>, with \<open>k = i + 1\<close>. When \<open>int(skip)\<close>
  is negative the loop goes on to \<^verbatim>\<open>callers_stack[-1]\<close>.
\<close>

fun RewindCallStack_loop ::
  "raw_frame list \<Rightarrow> int \<Rightarrow> nat \<Rightarrow> rewind_state \<Rightarrow> rewind_error + rewind_state" where
  "RewindCallStack_loop callers skip 0 st =
     (if skip \<le> - 1 then Inl StackIndexOutOfRange else Inr st)"
| "RewindCallStack_loop callers skip (Suc i) st =
     (if skip \<le> int i
      then RewindCallStack_loop callers skip i (rewind_frame (callers ! i) i st)
      else Inr st)"

definition kMaxCallers :: nat where
  "kMaxCallers = 62"

definition MAX_CALLERS_SHOWN :: nat where
  "MAX_CALLERS_SHOWN = 50"

definition RewindCallStack ::
  "environment \<Rightarrow> 32 word \<Rightarrow> string \<Rightarrow> rewind_error + (stack_entry list \<times> string)" where
  "RewindCallStack p skip crashedMethod0 =
     (if \<not> captureAvailable p then Inr ([], crashedMethod0)
      else
        let callers = take kMaxCallers (callers_stack p);
            frames = (if length callers < MAX_CALLERS_SHOWN then length callers
                      else MAX_CALLERS_SHOWN)
        in case RewindCallStack_loop callers (sint skip) frames
                  \<lparr>missingFrames = [], result = [], crashedMethod = crashedMethod0\<rparr> of
             Inl e \<Rightarrow> Inl e
           | Inr st \<Rightarrow> Inr (result st, crashedMethod st))"

text \<open>The JSON object that \<^verbatim>\<open>RewindCallStack\<close> builds for an entry.\<close>

definition entry_json :: "stack_entry \<Rightarrow> json" where
  "entry_json e =
     JObject
       ([(''function'', JString (entry_function e)),
         (''filename'', JString (entry_filename e)),
         (''lineno'', JNumber (int (entry_lineno e))),
         (''instruction addr'', JString (entry_instruction_addr e)),
         (''symbol addr'', JString (entry_symbol_addr e))]
        @ (case entry_in_app e of None \<Rightarrow> [] | Some b \<Rightarrow> [(''in app'', JBool b)])
        @ (case entry_frames_omitted e of
             None \<Rightarrow> []
           | Some (a, b) \<Rightarrow> [(''frames omitted'', JArray [JString a, JString b])]))"

section \<open>\<^verbatim>\<open>RequestOBSLog\<close>, \<^verbatim>\<open>ComputeBreadcrumbs\<close>, \<^verbatim>\<open>ComputeWarnings\<close>\<close>

datatype OBSLogType = Errors | Warnings | General

text \<open>\<^verbatim>\<open>for (auto& msg : msgs) result.push_back(msg);\<close>\<close>

fun push_back_all :: "json \<Rightarrow> string list \<Rightarrow> json" where
  "push_back_all r [] = r"
| "push_back_all r (msg # msgs) = push_back_all (json_push_back r (JString msg)) msgs"

text \<open>
  \<^verbatim>\<open>while (!general.empty()) { result.push_back(general.front()); general.pop(); }\<close>
\<close>

fun drain_general :: "json \<Rightarrow> string list \<Rightarrow> json \<times> string list" where
  "drain_general r [] = (r, [])"
| "drain_general r (msg # general) = drain_general (json_push_back r (JString msg)) general"

definition RequestOBSLog :: "OBSLogType \<Rightarrow> crash_manager \<Rightarrow> json \<times> crash_manager" where
  "RequestOBSLog type s =
     (case type of
        Errors \<Rightarrow> (push_back_all JNull (obsLogErrors s), s)
      | Warnings \<Rightarrow> (push_back_all JNull (obsLogWarnings s), s)
      | General \<Rightarrow>
          (let (r, general) = drain_general JNull (obsLogGeneral s)
           in (r, s\<lparr>obsLogGeneral := general\<rparr>)))"

definition ComputeBreadcrumbs :: "crash_manager \<Rightarrow> json" where
  "ComputeBreadcrumbs s = push_back_all JNull (breadcrumbs s)"

definition ComputeWarnings :: "crash_manager \<Rightarrow> json" where
  "ComputeWarnings s = push_back_all JNull (warnings s)"

section \<open>\<^verbatim>\<open>SetupCrashpad\<close>\<close>

definition SetupCrashpad :: "environment \<Rightarrow> crash_manager \<Rightarrow> bool \<times> crash_manager" where
  "SetupCrashpad p s =
     (let s1 = s\<lparr>arguments := arguments s @ [''--no-rate-limit'']\<rparr>
      in if \<not> database_initialized p then (False, s1)
         else
           let s2 = s1\<lparr>handlerStarts := handlerStarts s1 @ [(annotations s1, arguments s1)]\<rparr>
           in if \<not> startHandler_ok p then (False, s2)
              else if \<not> waitForHandlerStart_ok p then (False, s2)
              else (True, s2))"

section \<open>\<^verbatim>\<open>HandleCrash\<close> and \<^verbatim>\<open>HandleExit\<close>\<close>

text \<open>\<^verbatim>\<open>annotations.insert({{key, value}})\<close> leaves a key that is present as it is.\<close>

definition map_insert :: "(string \<rightharpoonup> string) \<Rightarrow> string \<Rightarrow> string \<Rightarrow> (string \<rightharpoonup> string)" where
  "map_insert m k v = (case m k of None \<Rightarrow> m(k \<mapsto> v) | Some old \<Rightarrow> m)"

text \<open>
  The sixteen insertions of \<^verbatim>\<open>HandleCrash\<close> (release build) in their order: the key, and
  the computation of the value from the state, which gives the value and the state after
  it, or \<open>None\<close> when it does not return: the suffix index of \<^verbatim>\<open>PrettyBytes\<close> out of
  bounds, or an exception of the conversion of the JSON value that \<^verbatim>\<open>ComputeBreadcrumbs\<close>
  and \<^verbatim>\<open>ComputeWarnings\<close> return to the \<^verbatim>\<open>std::string\<close> that the map stores.
  \<^verbatim>\<open>totalPhysMem\<close> and \<^verbatim>\<open>physMemUsed\<close> are \<^verbatim>\<open>long long\<close>, \<^verbatim>\<open>physMemUsedByMe\<close> is
  \<^verbatim>\<open>size_t\<close>; \<^verbatim>\<open>PrettyBytes\<close> takes them as \<^verbatim>\<open>uint64_t\<close>.
\<close>

type_synonym annotation_step = "string \<times> (crash_manager \<Rightarrow> (string \<times> crash_manager) option)"

definition annotation_steps ::
  "environment \<Rightarrow> string \<Rightarrow> stack_entry list \<Rightarrow> annotation_step list" where
  "annotation_steps p crashInfo callStack =
     [(''Time elapsed: '', \<lambda>s. Some (to_string_int (timeElapsed p) @ ''s'', s)),
      (''Status'', \<lambda>s. Some (if obs_initialized p then ''initialized'' else ''shutdown'', s)),
      (''Leaks'', \<lambda>s. Some (to_string_int (bnum_allocs p), s)),
      (''Total memory'', \<lambda>s.
         map_option (\<lambda>v. (v, s)) (PrettyBytes (legacy_crt p) (totalPhysMem p))),
      (''Total used memory'', \<lambda>s.
         map_option
           (\<lambda>v. (v @ '' - percentage: ''
                    @ double_ratio_to_string p (sint (physMemUsed p)) (sint (totalPhysMem p))
                    @ ''%'', s))
           (PrettyBytes (legacy_crt p) (physMemUsed p))),
      (''Total SLOBS memory'', \<lambda>s.
         map_option
           (\<lambda>v. (v @ '' - percentage: ''
                    @ double_ratio_to_string p (uint (physMemUsedByMe p)) (sint (totalPhysMem p))
                    @ ''%'', s))
           (PrettyBytes (legacy_crt p) (physMemUsedByMe p))),
      (''CPU usage'', \<lambda>s. Some (to_string_int (totalCPUUsed p) @ ''%'', s)),
      (''OBS errors'', \<lambda>s.
         case RequestOBSLog Errors s of (j, s') \<Rightarrow> Some (json_dump p j, s')),
      (''OBS warnings'', \<lambda>s.
         case RequestOBSLog Warnings s of (j, s') \<Rightarrow> Some (json_dump p j, s')),
      (''OBS log general'', \<lambda>s.
         case RequestOBSLog General s of (j, s') \<Rightarrow> Some (json_dump p j, s')),
      (''Process List'', \<lambda>s. Some (json_dump p (processList p), s)),
      (''Manual callstack'', \<lambda>s. Some (json_dump p (JArray (map entry_json callStack)), s)),
      (''Crash reason'', \<lambda>s. Some (crashInfo, s)),
      (''Computer name'', \<lambda>s.
         Some (case computerName p of None \<Rightarrow> [] | Some name \<Rightarrow> name, s)),
      (''Breadcrumbs'', \<lambda>s.
         map_option (\<lambda>v. (v, s)) (json_to_std_string p (ComputeBreadcrumbs s))),
      (''Warnings'', \<lambda>s.
         map_option (\<lambda>v. (v, s)) (json_to_std_string p (ComputeWarnings s)))]"

text \<open>
  Running the insertions: \<open>Inr\<close> the state after the last one, \<open>Inl\<close> the state in which
  a value computation did not return.
\<close>

fun insert_annotations :: "annotation_step list \<Rightarrow> crash_manager \<Rightarrow> crash_manager + crash_manager" where
  "insert_annotations [] s = Inr s"
| "insert_annotations ((key, compute) # steps) s =
     (case compute s of
        None \<Rightarrow> Inl s
      | Some (v, s') \<Rightarrow>
          insert_annotations steps (s'\<lparr>annotations := map_insert (annotations s') key v\<rparr>))"

text \<open>
  The part of \<^verbatim>\<open>HandleCrash\<close> between setting and releasing the latch, up to the call of
  \<^verbatim>\<open>SetupCrashpad\<close>.
\<close>

definition assemble_report :: "environment \<Rightarrow> string \<Rightarrow> crash_manager \<Rightarrow> crash_manager + crash_manager" where
  "assemble_report p crashInfo s =
     (case RewindCallStack p 0 [] of
        Inl e \<Rightarrow> Inl s
      | Inr (callStack, crashedMethodName) \<Rightarrow>
          insert_annotations (annotation_steps p crashInfo callStack) s)"

lemma insert_annotations_latch:
  "\<forall>(key, compute) \<in> set steps. \<forall>s v s'. compute s = Some (v, s') \<longrightarrow>
      insideCrashMethod s' = insideCrashMethod s \<Longrightarrow>
   insert_annotations steps s = Inl t \<or> insert_annotations steps s = Inr t \<Longrightarrow>
   insideCrashMethod t = insideCrashMethod s"
proof (induction steps arbitrary: s)
  case Nil
  then show ?case by simp
next
  case (Cons step steps)
  obtain key compute where step: "step = (key, compute)" by (cases step)
  show ?case
  proof (cases "compute s")
    case None
    with Cons.prems(2) step show ?thesis by simp
  next
    case (Some r)
    obtain v s' where r: "r = (v, s')" by (cases r)
    from Cons.prems(1) step Some r have keep: "insideCrashMethod s' = insideCrashMethod s"
      by auto
    let ?s = "s'\<lparr>annotations := map_insert (annotations s') key v\<rparr>"
    from Cons.prems(2) step Some r
    have "insert_annotations steps ?s = Inl t \<or> insert_annotations steps ?s = Inr t"
      by simp
    moreover from Cons.prems(1)
    have "\<forall>(key, compute) \<in> set steps. \<forall>s v s'. compute s = Some (v, s') \<longrightarrow>
        insideCrashMethod s' = insideCrashMethod s"
      by simp
    ultimately have "insideCrashMethod t = insideCrashMethod ?s"
      by (rule Cons.IH [rotated])
    with keep show ?thesis by simp
  qed
qed

lemma RequestOBSLog_latch: "insideCrashMethod (snd (RequestOBSLog type s)) = insideCrashMethod s"
  by (cases type) (simp_all add: RequestOBSLog_def split: prod.splits)

lemma annotation_steps_latch:
  "\<forall>(key, compute) \<in> set (annotation_steps p crashInfo callStack).
     \<forall>s v s'. compute s = Some (v, s') \<longrightarrow> insideCrashMethod s' = insideCrashMethod s"
proof -
  have "\<And>type s j s'. RequestOBSLog type s = (j, s') \<Longrightarrow>
      insideCrashMethod s' = insideCrashMethod s"
    using RequestOBSLog_latch by (metis snd_conv)
  then show ?thesis
    unfolding annotation_steps_def by (auto split: prod.splits)
qed

lemma assemble_report_latch:
  "assemble_report p crashInfo s = Inl t \<or> assemble_report p crashInfo s = Inr t \<Longrightarrow>
   insideCrashMethod t = insideCrashMethod s"
  unfolding assemble_report_def
  using insert_annotations_latch [OF annotation_steps_latch]
  by (auto split: sum.splits prod.splits)

text \<open>
  \<^verbatim>\<open>HandleCrash\<close> in a release build. It is declared \<^verbatim>\<open>noexcept\<close>: when a step of the
  assembly does not return, \<^verbatim>\<open>std::terminate\<close> runs the handler that \<^verbatim>\<open>Initialize\<close>
  installed, which calls \<^verbatim>\<open>HandleCrash("Direct call to std::terminate")\<close> on the state
  reached so far. \<^verbatim>\<open>callAbort\<close> is \<open>True\<close> where the source leaves it out.
\<close>

function HandleCrash :: "environment \<Rightarrow> string \<Rightarrow> bool \<Rightarrow> crash_manager \<Rightarrow> unit outcome" where
  "HandleCrash p crashInfo callAbort s =
     (if insideCrashMethod s then Aborted s
      else
        case assemble_report p crashInfo (s\<lparr>insideCrashMethod := True\<rparr>) of
          Inl s1 \<Rightarrow> HandleCrash p ''Direct call to std::terminate'' True s1
        | Inr s1 \<Rightarrow>
            (let s2 = snd (SetupCrashpad p s1)
             in if callAbort then Aborted s2
                else Returned () (s2\<lparr>insideCrashMethod := False\<rparr>)))"
  by pat_completeness auto
termination
proof (relation "measure (\<lambda>(p, crashInfo, callAbort, s). if insideCrashMethod s then 0 else 1)")
  show "wf (measure (\<lambda>(p, crashInfo, callAbort, s). if insideCrashMethod s then 0 else (1::nat)))"
    by simp
next
  fix p :: environment and crashInfo :: string and callAbort :: bool
    and s s1 :: crash_manager
  assume "\<not> insideCrashMethod s"
    and "assemble_report p crashInfo (s\<lparr>insideCrashMethod := True\<rparr>) = Inl s1"
  then have "insideCrashMethod s1"
    using assemble_report_latch [of p crashInfo "s\<lparr>insideCrashMethod := True\<rparr>" s1] by simp
  with \<open>\<not> insideCrashMethod s\<close>
  show "((p, ''Direct call to std::terminate'', True, s1), (p, crashInfo, callAbort, s))
      \<in> measure (\<lambda>(p, crashInfo, callAbort, s). if insideCrashMethod s then 0 else 1)"
    by simp
qed

declare HandleCrash.simps [simp del]

definition HandleExit :: "environment \<Rightarrow> crash_manager \<Rightarrow> unit outcome" where
  "HandleExit p s = (if obs_initialized p then HandleCrash p ''AtExit'' False s else Returned () s)"

section \<open>\<^verbatim>\<open>TryHandleCrash\<close>\<close>

text \<open>
  The loop over \<^verbatim>\<open>handledOBSCrashes\<close> that sets \<^verbatim>\<open>crashIsHandled\<close>; it searches the format
  string.
\<close>

fun crashIsHandled :: "string list \<Rightarrow> string \<Rightarrow> bool" where
  "crashIsHandled [] format = False"
| "crashIsHandled (handledCrashes # rest) format =
     (if string_find format handledCrashes \<noteq> None then True else crashIsHandled rest format)"

text \<open>
  \<^verbatim>\<open>exit(0)\<close> runs \<^verbatim>\<open>HandleExit\<close>, which \<^verbatim>\<open>Initialize\<close> registered with \<^verbatim>\<open>atexit\<close>, and ends
  the process.
\<close>

definition exit_process :: "environment \<Rightarrow> int \<Rightarrow> crash_manager \<Rightarrow> 'r outcome" where
  "exit_process p status s =
     (case HandleExit p s of
        Returned u s' \<Rightarrow> Exited status s'
      | Aborted s' \<Rightarrow> Aborted s'
      | Exited status' s' \<Rightarrow> Exited status' s')"

definition TryHandleCrash ::
  "environment \<Rightarrow> string \<Rightarrow> string \<Rightarrow> crash_manager \<Rightarrow> bool outcome" where
  "TryHandleCrash p format crashMessage s =
     (if \<not> crashIsHandled (handledOBSCrashes s) format then Returned False s
      else if destroyOBS_API_throws p
      then (case HandleCrash p crashMessage True s of
              Returned u s' \<Rightarrow> Returned True s'
            | Aborted s' \<Rightarrow> Aborted s'
            | Exited status s' \<Rightarrow> Exited status s')
      else exit_process (p\<lparr>obs_initialized := obs_initialized_after_destroy p\<rparr>) 0 s)"

section \<open>Notions used to state the properties\<close>

text \<open>
  The function name that symbol resolution gives for a frame; whether a frame is emitted
  (both resolutions succeed and the file is not the crash manager's own); and the frames
  that \<^verbatim>\<open>RewindCallStack\<close> visits, in the order in which it visits them: of the at most
  \<open>kMaxCallers\<close> captured frames the first \<open>MAX_CALLERS_SHOWN\<close>, without the first
  \<open>skip\<close>, taken from the last to the first, that is from the outermost to the innermost.
\<close>

definition frame_function :: "raw_frame \<Rightarrow> string" where
  "frame_function frame = (case symFromAddr frame of Some symbol \<Rightarrow> sym_Name symbol | None \<Rightarrow> [])"

definition frame_emitted :: "raw_frame \<Rightarrow> bool" where
  "frame_emitted frame =
     (case (symFromAddr frame, symGetLineFromAddr64 frame) of
        (Some symbol, Some line) \<Rightarrow> fileName_of (line_FileName line) \<noteq> ''util-crashmanager.cpp''
      | _ \<Rightarrow> False)"

definition processing_order :: "environment \<Rightarrow> 32 word \<Rightarrow> raw_frame list" where
  "processing_order p skip =
     rev (drop (nat (sint skip)) (take MAX_CALLERS_SHOWN (take kMaxCallers (callers_stack p))))"

text \<open>
  The state in which a call ends; the keys that \<^verbatim>\<open>HandleCrash\<close> inserts, and those of
  them whose value computation always returns; the call stack that \<^verbatim>\<open>HandleCrash\<close>
  captures; and the pairs of key and value that the insertions of one invocation
  compute, in their order, up to the first value computation that does not return.
\<close>

definition outcome_state :: "'r outcome \<Rightarrow> crash_manager" where
  "outcome_state out = (case out of Returned r s \<Rightarrow> s | Aborted s \<Rightarrow> s | Exited status s \<Rightarrow> s)"

definition inserted_keys :: "string list" where
  "inserted_keys =
     [''Time elapsed: '', ''Status'', ''Leaks'', ''Total memory'', ''Total used memory'',
      ''Total SLOBS memory'', ''CPU usage'', ''OBS errors'', ''OBS warnings'',
      ''OBS log general'', ''Process List'', ''Manual callstack'', ''Crash reason'',
      ''Computer name'', ''Breadcrumbs'', ''Warnings'']"

definition unconditional_keys :: "string list" where
  "unconditional_keys =
     [''Time elapsed: '', ''Status'', ''Leaks'', ''Total memory'', ''Total used memory'',
      ''Total SLOBS memory'', ''CPU usage'', ''OBS errors'', ''OBS warnings'',
      ''OBS log general'', ''Process List'', ''Manual callstack'', ''Crash reason'',
      ''Computer name'']"

definition callStack_of :: "environment \<Rightarrow> stack_entry list" where
  "callStack_of p = (case RewindCallStack p 0 [] of Inr (callStack, crashed) \<Rightarrow> callStack | Inl e \<Rightarrow> [])"

fun computed_pairs :: "annotation_step list \<Rightarrow> crash_manager \<Rightarrow> (string \<times> string) list" where
  "computed_pairs [] s = []"
| "computed_pairs ((key, compute) # steps) s =
     (case compute s of
        None \<Rightarrow> []
      | Some (v, s') \<Rightarrow>
          (key, v) # computed_pairs steps (s'\<lparr>annotations := map_insert (annotations s') key v\<rparr>))"

definition computed_annotations ::
  "environment \<Rightarrow> string \<Rightarrow> crash_manager \<Rightarrow> (string \<times> string) list" where
  "computed_annotations p crashInfo s =
     computed_pairs (annotation_steps p crashInfo (callStack_of p))
       (s\<lparr>insideCrashMethod := True\<rparr>)"


section \<open>Example inputs\<close>

text \<open>
  An environment for concrete runs: OBS is initialised, two resolvable frames are captured
  (\<open>inner\<close> called by \<open>outer\<close>), the conversion of JSON values to strings behaves as the
  JSON library documents it, and the functions that render doubles and JSON text are
  replaced by fixed strings.
\<close>

definition example_path :: string where
  "example_path = ''C:'' @ [CHR 0x5C] @ ''app'' @ [CHR 0x5C] @ ''main.cpp''"

definition example_frame :: "string \<Rightarrow> bool \<Rightarrow> raw_frame" where
  "example_frame name ok =
     \<lparr>address_text = ''00007FF6A1B2C3D4'',
      symFromAddr = (if ok then Some \<lparr>sym_Name = name, sym_Address = 4096\<rparr> else None),
      symGetLineFromAddr64 =
        (if ok then Some \<lparr>line_FileName = example_path, line_LineNumber = 10\<rparr> else None)\<rparr>"

definition example_entry :: "string \<Rightarrow> (string \<times> string) option \<Rightarrow> stack_entry" where
  "example_entry name omitted =
     \<lparr>entry_function = name, entry_filename = ''main.cpp'', entry_lineno = 10,
      entry_instruction_addr = ''0xff6a1b2c3d4'', entry_symbol_addr = ''0x4096'',
      entry_in_app = None, entry_frames_omitted = omitted\<rparr>"

definition example_env :: environment where
  "example_env =
     \<lparr>obs_initialized = True, bnum_allocs = 3, totalPhysMem = 17179869184,
      physMemUsed = 8589934592, physMemUsedByMe = 1610612736, totalCPUUsed = 12,
      computerName = Some ''STUDIO-PC'', timeElapsed = 75, processList = JObject [],
      captureAvailable = True,
      callers_stack = [example_frame ''inner'' True, example_frame ''outer'' True],
      legacy_crt = False, double_ratio_to_string = (\<lambda>a b. ''ratio''),
      json_dump = (\<lambda>j. ''json''), json_to_std_string = nlohmann_get_string,
      database_initialized = True, startHandler_ok = True, waitForHandlerStart_ok = True,
      destroyOBS_API_throws = False, obs_initialized_after_destroy = False\<rparr>"

text \<open>
  Ten captured frames \<open>f0\<close> (innermost) to \<open>f9\<close>, of which \<open>f3\<close>, \<open>f4\<close> and \<open>f5\<close> do not
  resolve.
\<close>

definition gap_env :: environment where
  "gap_env =
     example_env\<lparr>callers_stack :=
       [example_frame ''f0'' True, example_frame ''f1'' True, example_frame ''f2'' True,
        example_frame ''f3'' False, example_frame ''f4'' False, example_frame ''f5'' False,
        example_frame ''f6'' True, example_frame ''f7'' True, example_frame ''f8'' True,
        example_frame ''f9'' True]\<rparr>"

section \<open>Evaluation rules\<close>

lemma to_string_nat_digit: "n < 10 \<Longrightarrow> to_string_nat n = [digit_char n]"
  by (subst to_string_nat.simps) simp

lemma to_string_nat_more:
  "\<not> n < 10 \<Longrightarrow> to_string_nat n = to_string_nat (n div 10) @ [digit_char (n mod 10)]"
  by (subst to_string_nat.simps) simp

lemma excess_bits_small: "n < 9007199254740992 \<Longrightarrow> excess_bits n = 0"
  by (subst excess_bits.simps) simp

lemma excess_bits_large:
  "\<not> n < 9007199254740992 \<Longrightarrow> excess_bits n = Suc (excess_bits (n div 2))"
  by (subst excess_bits.simps) simp

lemma PrettyBytes_loop_stop:
  "\<not> (count \<ge> 1024 \<and> s < 7) \<Longrightarrow> PrettyBytes_loop count s = (count, s)"
  by (subst PrettyBytes_loop.simps) auto

lemma PrettyBytes_loop_step:
  "count \<ge> 1024 \<Longrightarrow> s < 7 \<Longrightarrow>
   PrettyBytes_loop count s = PrettyBytes_loop (count / 1024) (s + 1)"
  by (subst PrettyBytes_loop.simps) simp

lemmas PrettyBytes_eval =
  to_string_nat_digit to_string_nat_more excess_bits_small excess_bits_large
  PrettyBytes_loop_stop PrettyBytes_loop_step PrettyBytes_def to_double_def sprintf_1f_def
  to_string_int_def digit_char_def suffixes_def Let_def

lemma HandleCrash_latched:
  "insideCrashMethod s \<Longrightarrow> HandleCrash p crashInfo callAbort s = Aborted s"
  by (subst HandleCrash.simps) simp

lemma HandleCrash_fault:
  assumes "\<not> insideCrashMethod s"
    and "assemble_report p crashInfo (s\<lparr>insideCrashMethod := True\<rparr>) = Inl t"
  shows "HandleCrash p crashInfo callAbort s = Aborted t"
proof -
  from assms(2) have "insideCrashMethod t"
    using assemble_report_latch [of p crashInfo "s\<lparr>insideCrashMethod := True\<rparr>" t] by simp
  then have "HandleCrash p ''Direct call to std::terminate'' True t = Aborted t"
    by (rule HandleCrash_latched)
  with assms show ?thesis by (subst HandleCrash.simps) simp
qed

lemma HandleCrash_complete:
  assumes "\<not> insideCrashMethod s"
    and "assemble_report p crashInfo (s\<lparr>insideCrashMethod := True\<rparr>) = Inr t"
  shows "HandleCrash p crashInfo callAbort s =
     (if callAbort then Aborted (snd (SetupCrashpad p t))
      else Returned () (snd (SetupCrashpad p t)\<lparr>insideCrashMethod := False\<rparr>))"
  using assms by (subst HandleCrash.simps) (simp add: Let_def)

lemma HandleCrash_abort_never_returns: "\<exists>t. HandleCrash p crashInfo True s = Aborted t"
proof (cases "insideCrashMethod s")
  case True
  then show ?thesis by (simp add: HandleCrash_latched)
next
  case False
  show ?thesis
  proof (cases "assemble_report p crashInfo (s\<lparr>insideCrashMethod := True\<rparr>)")
    case (Inl t)
    with False show ?thesis by (simp add: HandleCrash_fault)
  next
    case (Inr t)
    with False show ?thesis by (simp add: HandleCrash_complete)
  qed
qed

lemma HandleExit_outcome:
  "(\<exists>t. HandleExit p s = Returned () t) \<or> (\<exists>t. HandleExit p s = Aborted t)"
proof (cases "obs_initialized p \<and> \<not> insideCrashMethod s")
  case True
  then show ?thesis
    by (cases "assemble_report p ''AtExit'' (s\<lparr>insideCrashMethod := True\<rparr>)")
      (simp_all add: HandleExit_def HandleCrash_fault HandleCrash_complete)
next
  case False
  then show ?thesis by (auto simp: HandleExit_def HandleCrash_latched)
qed

lemma TryHandleCrash_handled:
  assumes "crashIsHandled (handledOBSCrashes s) format"
  shows "(\<exists>t. TryHandleCrash p format crashMessage s = Aborted t) \<or>
         (\<exists>t. TryHandleCrash p format crashMessage s = Exited 0 t)"
proof (cases "destroyOBS_API_throws p")
  case True
  obtain t where "HandleCrash p crashMessage True s = Aborted t"
    using HandleCrash_abort_never_returns by blast
  with assms True show ?thesis by (simp add: TryHandleCrash_def)
next
  case False
  let ?p = "p\<lparr>obs_initialized := obs_initialized_after_destroy p\<rparr>"
  have "(\<exists>t. (exit_process ?p 0 s :: bool outcome) = Aborted t) \<or>
      (\<exists>t. (exit_process ?p 0 s :: bool outcome) = Exited 0 t)"
    using HandleExit_outcome [of ?p s] by (auto simp: exit_process_def)
  with assms False show ?thesis by (simp add: TryHandleCrash_def)
qed

lemma RewindCallStack_loop_pos:
  "0 < k \<Longrightarrow>
   RewindCallStack_loop callers skip k st =
     (if skip \<le> int (k - 1)
      then RewindCallStack_loop callers skip (k - 1) (rewind_frame (callers ! (k - 1)) (k - 1) st)
      else Inr st)"
  by (cases k) simp_all

lemma take_frames_shown: "take (if length xs < m then length xs else m) xs = take m xs"
  by simp

lemma frames_le_captured: "(if length xs < m then length xs else m) \<le> length xs"
  by simp

lemmas RewindCallStack_eval =
  RewindCallStack_def RewindCallStack_loop_pos rewind_frame_def fileName_of_def
  shorten_address_def tolower_def kMaxCallers_def MAX_CALLERS_SHOWN_def Let_def
  to_string_nat_digit to_string_nat_more to_string_int_def digit_char_def
  example_env_def example_frame_def example_entry_def example_path_def

section \<open>The suffix index stays in bounds\<close>

lemma excess_bits_quotient_pos: "0 < excess_bits n \<Longrightarrow> 1 \<le> n div 2 ^ excess_bits n"
proof (induction n rule: excess_bits.induct)
  case (1 n)
  from "1.prems" have big: "\<not> n < 9007199254740992"
    by (auto simp: excess_bits_small)
  show ?case
  proof (cases "0 < excess_bits (n div 2)")
    case True
    with "1.IH" big have "1 \<le> n div 2 div 2 ^ excess_bits (n div 2)" by simp
    with big show ?thesis by (simp add: excess_bits_large div_mult2_eq)
  next
    case False
    with big have "excess_bits n = 1" by (simp add: excess_bits_large)
    moreover from big have "1 \<le> n div 2" by simp
    ultimately show ?thesis by simp
  qed
qed

lemma to_double_nonneg: "0 \<le> to_double n"
  by (simp add: to_double_def Let_def)

lemma to_double_le_twice: "to_double n \<le> 2 * real n"
proof (cases "excess_bits n = 0")
  case True
  then show ?thesis by (simp add: to_double_def)
next
  case False
  define e where "e = excess_bits n"
  define q where "q = n div 2 ^ e"
  from False have "1 \<le> q"
    unfolding q_def e_def using excess_bits_quotient_pos [of n] by simp
  then have "2 ^ e \<le> q * 2 ^ e" by simp
  moreover have "q * 2 ^ e \<le> n" unfolding q_def by simp
  ultimately have "q * 2 ^ e + 2 ^ e \<le> 2 * n" by linarith
  then have "(q + 1) * 2 ^ e \<le> 2 * n" by (simp add: algebra_simps)
  then have up: "real ((q + 1) * 2 ^ e) \<le> 2 * real n"
    by (metis of_nat_le_iff of_nat_mult of_nat_numeral)
  have "q * 2 ^ e \<le> (q + 1) * 2 ^ e" by simp
  then have "real (q * 2 ^ e) \<le> real ((q + 1) * 2 ^ e)"
    by (simp only: of_nat_le_iff)
  with up have down: "real (q * 2 ^ e) \<le> 2 * real n" by linarith
  from False up down show ?thesis
    unfolding to_double_def Let_def e_def [symmetric] q_def [symmetric] by simp
qed


lemma to_double_uint64_bound: "to_double (unat (bytes :: 64 word)) < 36893488147419103232"
proof -
  have "unat bytes < 2 ^ 64" using unsigned_less [of bytes] by simp
  then have "unat bytes < 18446744073709551616" by simp
  then have "real (unat bytes) < real 18446744073709551616"
    by (simp only: of_nat_less_iff)
  then have "real (unat bytes) < 18446744073709551616" by simp
  with to_double_le_twice [of "unat bytes"] show ?thesis by linarith
qed

lemma PrettyBytes_loop_bound:
  "count < 1024 * 1024 ^ k \<Longrightarrow> s + k \<le> 6 \<Longrightarrow>
   snd (PrettyBytes_loop count s) \<le> s + k \<and> fst (PrettyBytes_loop count s) < 1024"
proof (induction k arbitrary: count s)
  case 0
  then show ?case by (simp add: PrettyBytes_loop_stop)
next
  case (Suc k)
  show ?case
  proof (cases "count \<ge> 1024")
    case True
    from Suc.prems have "s < 7" by simp
    from Suc.prems have "count / 1024 < 1024 * 1024 ^ k" by simp
    moreover from Suc.prems have "(s + 1) + k \<le> 6" by simp
    ultimately have "snd (PrettyBytes_loop (count / 1024) (s + 1)) \<le> (s + 1) + k \<and>
        fst (PrettyBytes_loop (count / 1024) (s + 1)) < 1024"
      by (rule Suc.IH)
    with True \<open>s < 7\<close> show ?thesis by (simp add: PrettyBytes_loop_step)
  next
    case False
    then show ?thesis by (simp add: PrettyBytes_loop_stop)
  qed
qed

lemma PrettyBytes_loop_scale:
  "PrettyBytes_loop count s = (c, s') \<Longrightarrow>
   s \<le> s' \<and> c = count / 1024 ^ (s' - s) \<and> (\<forall>j < s' - s. 1024 \<le> count / 1024 ^ j)"
proof (induction count s rule: PrettyBytes_loop.induct)
  case (1 count s)
  show ?case
  proof (cases "count \<ge> 1024 \<and> s < 7")
    case True
    with "1.prems" have run: "PrettyBytes_loop (count / 1024) (s + 1) = (c, s')"
      by (simp add: PrettyBytes_loop_step)
    with "1.IH" True have ih: "s + 1 \<le> s'" "c = count / 1024 / 1024 ^ (s' - (s + 1))"
      "\<forall>j < s' - (s + 1). 1024 \<le> count / 1024 / 1024 ^ j"
      by simp_all
    from ih(1) have diff: "s' - s = Suc (s' - (s + 1))" by simp
    have "\<forall>j < s' - s. 1024 \<le> count / 1024 ^ j"
    proof (intro allI impI)
      fix j assume j: "j < s' - s"
      show "1024 \<le> count / 1024 ^ j"
      proof (cases j)
        case 0
        with True show ?thesis by simp
      next
        case (Suc i)
        with j diff have "i < s' - (s + 1)" by simp
        with ih(3) have "1024 \<le> count / 1024 / 1024 ^ i" by simp
        with Suc show ?thesis by simp
      qed
    qed
    with ih(1) ih(2) diff show ?thesis by simp
  next
    case False
    with "1.prems" show ?thesis by (simp add: PrettyBytes_loop_stop)
  qed
qed


lemma PrettyBytes_loop_uint64:
  "snd (PrettyBytes_loop (to_double (unat (bytes :: 64 word))) 0) \<le> 6 \<and>
   fst (PrettyBytes_loop (to_double (unat bytes)) 0) < 1024"
proof -
  have "to_double (unat bytes) < 1024 * 1024 ^ 6"
    using to_double_uint64_bound [of bytes] by simp
  then have "snd (PrettyBytes_loop (to_double (unat bytes)) 0) \<le> 0 + 6 \<and>
      fst (PrettyBytes_loop (to_double (unat bytes)) 0) < 1024"
    by (rule PrettyBytes_loop_bound) simp
  then show ?thesis by simp
qed

lemma PrettyBytes_general:
  "\<exists>s c. s < 7 \<and> c = to_double (unat bytes) / 1024 ^ s \<and> c < 1024 \<and>
     (\<forall>j < s. 1024 \<le> to_double (unat bytes) / 1024 ^ j) \<and>
     PrettyBytes legacy bytes =
       Some ((if c = of_int \<lfloor>c\<rfloor> then to_string_int \<lfloor>c\<rfloor> else sprintf_1f legacy c)
             @ suffixes ! s)"
proof -
  obtain c s where run: "PrettyBytes_loop (to_double (unat bytes)) 0 = (c, s)"
    by (cases "PrettyBytes_loop (to_double (unat bytes)) 0")
  with PrettyBytes_loop_uint64 [of bytes] have bound: "s \<le> 6" "c < 1024" by simp_all
  from PrettyBytes_loop_scale [OF run]
  have scale: "c = to_double (unat bytes) / 1024 ^ s"
    "\<forall>j < s. 1024 \<le> to_double (unat bytes) / 1024 ^ j" by simp_all
  from bound have "s < 7" by simp
  with run have "PrettyBytes legacy bytes =
       Some ((if c = of_int \<lfloor>c\<rfloor> then to_string_int \<lfloor>c\<rfloor> else sprintf_1f legacy c)
             @ suffixes ! s)"
    by (simp add: PrettyBytes_def)
  with \<open>s < 7\<close> scale bound(2) show ?thesis by blast
qed

lemma PrettyBytes_Some: "\<exists>str. PrettyBytes legacy bytes = Some str"
  using PrettyBytes_general [of bytes legacy] by blast

section \<open>Claims about \<^verbatim>\<open>PrettyBytes\<close>\<close>



text \<open>
  Claim C10. For every 64-bit input the loop of \<^verbatim>\<open>PrettyBytes\<close> ends with a suffix index
  of at most 6: six divisions by 1024 bring the double of any 64-bit value below 1024.
  So \<^verbatim>\<open>suffixes[s]\<close> is read inside the array of seven elements and \<^verbatim>\<open>PrettyBytes\<close>
  returns a string, although the guard \<^verbatim>\<open>s < 7\<close> alone lets the index reach 7, as it does
  on a count of \<open>1024 ^ 7\<close>.
\<close>

theorem PrettyBytes_suffix_index_in_bounds:
  "snd (PrettyBytes_loop (to_double (unat (bytes :: 64 word))) 0) \<le> 6 \<and>
   to_double (unat bytes) / 1024 ^ 6 < 1024 \<and>
   (\<exists>str. PrettyBytes legacy bytes = Some str) \<and>
   snd (PrettyBytes_loop (1024 ^ 7) 0) = 7"
proof (intro conjI)
  show "snd (PrettyBytes_loop (to_double (unat bytes)) 0) \<le> 6"
    using PrettyBytes_loop_uint64 [of bytes] by simp
  show "to_double (unat bytes) / 1024 ^ 6 < 1024"
    using to_double_uint64_bound [of bytes] by simp
  show "\<exists>str. PrettyBytes legacy bytes = Some str"
    by (rule PrettyBytes_Some)
  show "snd (PrettyBytes_loop (1024 ^ 7) 0) = 7"
    by (simp add: PrettyBytes_loop_stop PrettyBytes_loop_step)
qed

theorem PrettyBytes_suffix_index_in_bounds_witness:
  "snd (PrettyBytes_loop (to_double (unat (18446744073709551615 :: 64 word))) 0) \<le> 6 \<and>
   PrettyBytes False 18446744073709551615 = Some ''16eb''"
proof -
  have "PrettyBytes False 18446744073709551615 = Some ''16eb''"
    by (simp add: PrettyBytes_eval)
  with PrettyBytes_suffix_index_in_bounds [of 18446744073709551615 False] show ?thesis
    by simp
qed

section \<open>Claims about the OBS log queries\<close>

lemma push_back_all_array:
  "push_back_all (JArray vs) msgs = JArray (vs @ map JString msgs)"
  by (induction msgs arbitrary: vs) simp_all

lemma push_back_all_null:
  "push_back_all JNull msgs = (if msgs = [] then JNull else JArray (map JString msgs))"
  by (cases msgs) (simp_all add: push_back_all_array)

lemma drain_general_array:
  "drain_general (JArray vs) general = (JArray (vs @ map JString general), [])"
  by (induction general arbitrary: vs) simp_all

lemma drain_general_null:
  "drain_general JNull general =
     (if general = [] then JNull else JArray (map JString general), [])"
  by (cases general) (simp_all add: drain_general_array)

text \<open>
  Claim C8. \<^verbatim>\<open>RequestOBSLog(General)\<close> returns the buffered general messages in their
  order and leaves the general queue empty, so that a second call finds nothing and
  returns the null value it started from; \<^verbatim>\<open>RequestOBSLog(Errors)\<close> and
  \<^verbatim>\<open>RequestOBSLog(Warnings)\<close> return their messages in order and leave the state,
  their buffers included, as it was.
\<close>

theorem RequestOBSLog_general_is_drained:
  "RequestOBSLog General s =
     (if obsLogGeneral s = [] then JNull else JArray (map JString (obsLogGeneral s)),
      s\<lparr>obsLogGeneral := []\<rparr>) \<and>
   RequestOBSLog General (snd (RequestOBSLog General s)) = (JNull, s\<lparr>obsLogGeneral := []\<rparr>) \<and>
   RequestOBSLog Errors s =
     (if obsLogErrors s = [] then JNull else JArray (map JString (obsLogErrors s)), s) \<and>
   RequestOBSLog Warnings s =
     (if obsLogWarnings s = [] then JNull else JArray (map JString (obsLogWarnings s)), s)"
  by (simp add: RequestOBSLog_def drain_general_null push_back_all_null)

theorem RequestOBSLog_general_is_drained_witness:
  "RequestOBSLog General (initial_state\<lparr>obsLogGeneral := [''first'', ''second'']\<rparr>) =
     (JArray [JString ''first'', JString ''second''], initial_state) \<and>
   RequestOBSLog General initial_state = (JNull, initial_state) \<and>
   RequestOBSLog Errors (initial_state\<lparr>obsLogErrors := [''e1'', ''e2'']\<rparr>) =
     (JArray [JString ''e1'', JString ''e2''], initial_state\<lparr>obsLogErrors := [''e1'', ''e2'']\<rparr>)"
  using RequestOBSLog_general_is_drained [of "initial_state\<lparr>obsLogGeneral := [''first'', ''second'']\<rparr>"]
    RequestOBSLog_general_is_drained [of "initial_state"]
    RequestOBSLog_general_is_drained [of "initial_state\<lparr>obsLogErrors := [''e1'', ''e2'']\<rparr>"]
  by (simp add: initial_state_def)

section \<open>Claims about the known-crash filter\<close>

lemma starts_with_iff: "starts_with hay needle \<longleftrightarrow> (\<exists>post. hay = needle @ post)"
  by (induction hay needle rule: starts_with.induct) auto

lemma string_find_iff:
  "string_find hay needle \<noteq> None \<longleftrightarrow> (\<exists>pre post. hay = pre @ needle @ post)"
proof (induction hay)
  case Nil
  then show ?case by simp
next
  case (Cons h hs)
  show ?case
  proof (cases "starts_with (h # hs) needle")
    case True
    then obtain post where "h # hs = [] @ needle @ post" by (auto simp: starts_with_iff)
    then have "\<exists>pre post. h # hs = pre @ needle @ post" by blast
    with True show ?thesis by simp
  next
    case False
    have "(\<exists>pre post. h # hs = pre @ needle @ post) \<longleftrightarrow> (\<exists>pre post. hs = pre @ needle @ post)"
    proof
      assume "\<exists>pre post. h # hs = pre @ needle @ post"
      then obtain pre post where eq: "h # hs = pre @ needle @ post" by blast
      show "\<exists>pre post. hs = pre @ needle @ post"
      proof (cases pre)
        case Nil
        with eq have "starts_with (h # hs) needle" by (auto simp: starts_with_iff)
        with False show ?thesis by simp
      next
        case (Cons a pre')
        with eq have "hs = pre' @ needle @ post" by simp
        then show ?thesis by blast
      qed
    next
      assume "\<exists>pre post. hs = pre @ needle @ post"
      then obtain pre post where "hs = pre @ needle @ post" by blast
      then have "h # hs = (h # pre) @ needle @ post" by simp
      then show "\<exists>pre post. h # hs = pre @ needle @ post" by blast
    qed
    with False Cons.IH show ?thesis by simp
  qed
qed

lemma crashIsHandled_iff:
  "crashIsHandled signatures format \<longleftrightarrow>
   (\<exists>sig \<in> set signatures. \<exists>pre post. format = pre @ sig @ post)"
proof (induction signatures)
  case Nil
  then show ?case by simp
next
  case (Cons a rest)
  have "crashIsHandled (a # rest) format \<longleftrightarrow>
      string_find format a \<noteq> None \<or> crashIsHandled rest format"
    by simp
  also have "\<dots> \<longleftrightarrow> (\<exists>pre post. format = pre @ a @ post) \<or>
      (\<exists>sig \<in> set rest. \<exists>pre post. format = pre @ sig @ post)"
    by (simp only: Cons.IH string_find_iff)
  also have "\<dots> \<longleftrightarrow> (\<exists>sig \<in> set (a # rest). \<exists>pre post. format = pre @ sig @ post)"
    by simp
  finally show ?case .
qed


text \<open>
  Claim C1. The loop of \<^verbatim>\<open>TryHandleCrash\<close> classifies a fault as known exactly when one
  of the configured signatures occurs in the raw format string as a contiguous,
  character-for-character substring; the formatted message plays no part. When no
  signature occurs, \<^verbatim>\<open>TryHandleCrash\<close> returns false and changes nothing; when one occurs,
  it does not return false: the process ends by \<^verbatim>\<open>exit(0)\<close> or by \<^verbatim>\<open>abort\<close>.
\<close>

theorem TryHandleCrash_known_iff_signature_in_format:
  "(crashIsHandled (handledOBSCrashes s) format \<longleftrightarrow>
      (\<exists>sig \<in> set (handledOBSCrashes s). \<exists>pre post. format = pre @ sig @ post)) \<and>
   (TryHandleCrash p format crashMessage s = Returned False s \<longleftrightarrow>
      \<not> (\<exists>sig \<in> set (handledOBSCrashes s). \<exists>pre post. format = pre @ sig @ post)) \<and>
   ((\<exists>sig \<in> set (handledOBSCrashes s). \<exists>pre post. format = pre @ sig @ post) \<longrightarrow>
      (\<exists>t. TryHandleCrash p format crashMessage s = Aborted t) \<or>
      (\<exists>t. TryHandleCrash p format crashMessage s = Exited 0 t))"
proof (intro conjI)
  show known: "crashIsHandled (handledOBSCrashes s) format \<longleftrightarrow>
      (\<exists>sig \<in> set (handledOBSCrashes s). \<exists>pre post. format = pre @ sig @ post)"
    by (rule crashIsHandled_iff)
  show "TryHandleCrash p format crashMessage s = Returned False s \<longleftrightarrow>
      \<not> (\<exists>sig \<in> set (handledOBSCrashes s). \<exists>pre post. format = pre @ sig @ post)"
  proof (cases "crashIsHandled (handledOBSCrashes s) format")
    case True
    from TryHandleCrash_handled [OF True, of p crashMessage]
    have "TryHandleCrash p format crashMessage s \<noteq> Returned False s" by auto
    with True known show ?thesis by simp
  next
    case False
    then have "TryHandleCrash p format crashMessage s = Returned False s"
      by (simp add: TryHandleCrash_def)
    with False known show ?thesis by simp
  qed
  show "(\<exists>sig \<in> set (handledOBSCrashes s). \<exists>pre post. format = pre @ sig @ post) \<longrightarrow>
      (\<exists>t. TryHandleCrash p format crashMessage s = Aborted t) \<or>
      (\<exists>t. TryHandleCrash p format crashMessage s = Exited 0 t)"
    using TryHandleCrash_handled [of s format p crashMessage] known by blast
qed

theorem TryHandleCrash_known_iff_signature_in_format_witness:
  "(\<exists>sig \<in> set (handledOBSCrashes (Configure initial_state)).
      \<exists>pre post. ''device: Failed to recreate D3D11 (%08lX)'' = pre @ sig @ post) \<and>
   ((\<exists>t. TryHandleCrash example_env ''device: Failed to recreate D3D11 (%08lX)''
            ''device: Failed to recreate D3D11 (887A0005)'' (Configure initial_state) = Aborted t) \<or>
    (\<exists>t. TryHandleCrash example_env ''device: Failed to recreate D3D11 (%08lX)''
            ''device: Failed to recreate D3D11 (887A0005)'' (Configure initial_state) = Exited 0 t)) \<and>
   TryHandleCrash example_env ''%s'' ''Failed to recreate D3D11'' (Configure initial_state) =
     Returned False (Configure initial_state) \<and>
   TryHandleCrash example_env ''failed to recreate d3d11'' ''failed to recreate d3d11''
     (Configure initial_state) = Returned False (Configure initial_state)"
proof -
  let ?s = "Configure initial_state"
  have known: "crashIsHandled (handledOBSCrashes ?s) ''device: Failed to recreate D3D11 (%08lX)''"
    by (simp add: Configure_def initial_state_def)
  have other: "\<not> crashIsHandled (handledOBSCrashes ?s) ''%s''"
    by (simp add: Configure_def initial_state_def)
  have lower: "\<not> crashIsHandled (handledOBSCrashes ?s) ''failed to recreate d3d11''"
    by (simp add: Configure_def initial_state_def)
  from known
    TryHandleCrash_known_iff_signature_in_format
      [of ?s "''device: Failed to recreate D3D11 (%08lX)''" example_env
        "''device: Failed to recreate D3D11 (887A0005)''"]
  have "(\<exists>sig \<in> set (handledOBSCrashes ?s).
      \<exists>pre post. ''device: Failed to recreate D3D11 (%08lX)'' = pre @ sig @ post) \<and>
   ((\<exists>t. TryHandleCrash example_env ''device: Failed to recreate D3D11 (%08lX)''
            ''device: Failed to recreate D3D11 (887A0005)'' ?s = Aborted t) \<or>
    (\<exists>t. TryHandleCrash example_env ''device: Failed to recreate D3D11 (%08lX)''
            ''device: Failed to recreate D3D11 (887A0005)'' ?s = Exited 0 t))"
    by blast
  moreover from other
    TryHandleCrash_known_iff_signature_in_format
      [of ?s "''%s''" example_env "''Failed to recreate D3D11''"]
  have "TryHandleCrash example_env ''%s'' ''Failed to recreate D3D11'' ?s = Returned False ?s"
    by blast
  moreover from lower
    TryHandleCrash_known_iff_signature_in_format
      [of ?s "''failed to recreate d3d11''" example_env "''failed to recreate d3d11''"]
  have "TryHandleCrash example_env ''failed to recreate d3d11'' ''failed to recreate d3d11'' ?s =
      Returned False ?s"
    by blast
  ultimately show ?thesis by blast
qed

section \<open>Claims about \<^verbatim>\<open>RewindCallStack\<close>\<close>

lemma rewind_frame_emitted:
  "frame_emitted frame \<Longrightarrow>
   map entry_function (result (rewind_frame frame i st)) =
     map entry_function (result st) @ [frame_function frame] \<and>
   crashedMethod (rewind_frame frame i st) = frame_function frame"
  by (auto simp: frame_emitted_def frame_function_def rewind_frame_def Let_def
      split: option.splits)

lemma rewind_frame_not_emitted:
  "\<not> frame_emitted frame \<Longrightarrow>
   result (rewind_frame frame i st) = result st \<and>
   crashedMethod (rewind_frame frame i st) = crashedMethod st"
  by (auto simp: frame_emitted_def rewind_frame_def Let_def split: option.splits)

lemma RewindCallStack_loop_order:
  "0 \<le> skip \<Longrightarrow> k \<le> length callers \<Longrightarrow>
   \<exists>st'. RewindCallStack_loop callers skip k st = Inr st' \<and>
     map entry_function (result st') =
       map entry_function (result st)
       @ map frame_function (filter frame_emitted (rev (drop (nat skip) (take k callers)))) \<and>
     crashedMethod st' =
       (case filter frame_emitted (drop (nat skip) (take k callers)) of
          [] \<Rightarrow> crashedMethod st
        | frame # frames \<Rightarrow> frame_function frame)"
proof (induction k arbitrary: st)
  case 0
  then show ?case by simp
next
  case (Suc i)
  from Suc.prems have i: "i < length callers" by simp
  then have tk: "take (Suc i) callers = take i callers @ [callers ! i]"
    by (simp add: take_Suc_conv_app_nth)
  show ?case
  proof (cases "skip \<le> int i")
    case False
    with Suc.prems(1) have "Suc i \<le> nat skip" by linarith
    then have "drop (nat skip) (take (Suc i) callers) = []" by simp
    with False show ?thesis by simp
  next
    case True
    with Suc.prems(1) have le: "nat skip \<le> i" by linarith
    let ?f = "callers ! i"
    let ?st = "rewind_frame ?f i st"
    from i le have dr: "drop (nat skip) (take (Suc i) callers) =
        drop (nat skip) (take i callers) @ [?f]"
      by (simp add: tk)
    from Suc.prems i obtain st' where
      run: "RewindCallStack_loop callers skip i ?st = Inr st'"
      and names: "map entry_function (result st') =
        map entry_function (result ?st)
        @ map frame_function (filter frame_emitted (rev (drop (nat skip) (take i callers))))"
      and crashed: "crashedMethod st' =
        (case filter frame_emitted (drop (nat skip) (take i callers)) of
           [] \<Rightarrow> crashedMethod ?st
         | frame # frames \<Rightarrow> frame_function frame)"
      using Suc.IH [of ?st] by auto
    from True run have run': "RewindCallStack_loop callers skip (Suc i) st = Inr st'" by simp
    show ?thesis
    proof (cases "frame_emitted ?f")
      case True
      with names crashed rewind_frame_emitted [OF True, of i st] run' show ?thesis
        by (auto simp: dr split: list.splits)
    next
      case False
      with names crashed rewind_frame_not_emitted [OF False, of i st] run' show ?thesis
        by (auto simp: dr split: list.splits)
    qed
  qed
qed


text \<open>
  Claim C5 (as amended). \<^verbatim>\<open>RewindCallStack\<close> visits the captured frames from the
  outermost shown frame to the innermost one (index \<open>frames - 1\<close> down to \<open>skip\<close>), leaving
  out the first \<open>skip\<close> entries; it emits the frames that resolve and do not lie in the
  crash manager's own file, in that order; and \<^verbatim>\<open>crashedMethod\<close> is the function name of
  the last frame emitted in that order, which is the innermost such frame, or is left as
  it was when no frame is emitted.
\<close>

theorem RewindCallStack_processing_order:
  assumes "captureAvailable p" and "0 \<le> sint skip"
  shows "\<exists>entries crashed.
     RewindCallStack p skip crashedMethod0 = Inr (entries, crashed) \<and>
     map entry_function entries =
       map frame_function (filter frame_emitted (processing_order p skip)) \<and>
     crashed =
       (if filter frame_emitted (processing_order p skip) = [] then crashedMethod0
        else frame_function (last (filter frame_emitted (processing_order p skip))))"
proof -
  define callers where "callers = take kMaxCallers (callers_stack p)"
  define frames where
    "frames = (if length callers < MAX_CALLERS_SHOWN then length callers else MAX_CALLERS_SHOWN)"
  define st where "st = \<lparr>missingFrames = [], result = [], crashedMethod = crashedMethod0\<rparr>"
  define shown where "shown = drop (nat (sint skip)) (take MAX_CALLERS_SHOWN callers)"
  have "frames \<le> length callers"
    unfolding frames_def by (rule frames_le_captured)
  from RewindCallStack_loop_order [OF assms(2) this, of st]
  obtain st' where run: "RewindCallStack_loop callers (sint skip) frames st = Inr st'"
    and names: "map entry_function (result st') =
      map entry_function (result st)
      @ map frame_function
          (filter frame_emitted (rev (drop (nat (sint skip)) (take frames callers))))"
    and crashed: "crashedMethod st' =
      (case filter frame_emitted (drop (nat (sint skip)) (take frames callers)) of
         [] \<Rightarrow> crashedMethod st
       | frame # frames \<Rightarrow> frame_function frame)"
    by blast
  have tk: "take frames callers = take MAX_CALLERS_SHOWN callers"
    unfolding frames_def by (rule take_frames_shown)
  have names': "map entry_function (result st') = map frame_function (filter frame_emitted (rev shown))"
    using names unfolding tk shown_def [symmetric] by (simp add: st_def)
  have cm: "crashedMethod st = crashedMethod0"
    by (simp add: st_def)
  have crashed': "crashedMethod st' =
      (case filter frame_emitted shown of
         [] \<Rightarrow> crashedMethod0
       | frame # frames \<Rightarrow> frame_function frame)"
    using crashed unfolding tk shown_def [symmetric] cm .
  have order: "processing_order p skip = rev shown"
    unfolding processing_order_def shown_def callers_def ..
  have last: "crashedMethod st' =
      (if filter frame_emitted (rev shown) = [] then crashedMethod0
       else frame_function (last (filter frame_emitted (rev shown))))"
  proof (cases "filter frame_emitted shown")
    case Nil
    with crashed' show ?thesis by (simp add: rev_filter [symmetric])
  next
    case (Cons frame frames)
    then have "filter frame_emitted (rev shown) = rev (frame # frames)"
      by (simp only: rev_filter [symmetric])
    with crashed' Cons show ?thesis by simp
  qed
  have "RewindCallStack p skip crashedMethod0 = Inr (result st', crashedMethod st')"
    using assms(1) run
    unfolding RewindCallStack_def Let_def callers_def [symmetric] frames_def [symmetric]
      st_def [symmetric]
    by simp
  with names' last show ?thesis unfolding order by blast
qed

theorem RewindCallStack_processing_order_witness:
  "captureAvailable example_env \<and> 0 \<le> sint (0 :: 32 word) \<and>
   processing_order example_env 0 = [example_frame ''outer'' True, example_frame ''inner'' True] \<and>
   (\<exists>entries crashed.
      RewindCallStack example_env 0 [] = Inr (entries, crashed) \<and>
      map entry_function entries = [''outer'', ''inner''] \<and> crashed = ''inner'')"
proof -
  have cap: "captureAvailable example_env" by (simp add: example_env_def)
  have skip: "0 \<le> sint (0 :: 32 word)" by simp
  have order: "processing_order example_env 0 =
      [example_frame ''outer'' True, example_frame ''inner'' True]"
    by (simp add: processing_order_def example_env_def kMaxCallers_def MAX_CALLERS_SHOWN_def)
  have emitted: "frame_emitted (example_frame ''outer'' True)"
    "frame_emitted (example_frame ''inner'' True)"
    by (simp_all add: frame_emitted_def example_frame_def example_path_def fileName_of_def)
  have names: "frame_function (example_frame ''outer'' True) = ''outer''"
    "frame_function (example_frame ''inner'' True) = ''inner''"
    by (simp_all add: frame_function_def example_frame_def)
  from RewindCallStack_processing_order [OF cap skip, of "[]"] order emitted names cap skip
  show ?thesis by simp
qed


text \<open>
  The claim as stated, with the frames visited from the innermost to the outermost, fails
  on two frames \<open>inner\<close> and \<open>outer\<close>: the entry of \<open>outer\<close> is emitted first and the
  crashed method is \<open>inner\<close>.
\<close>

theorem RewindCallStack_outermost_first_counterexample:
  "callers_stack example_env = [example_frame ''inner'' True, example_frame ''outer'' True] \<and>
   RewindCallStack example_env 0 [] =
     Inr ([example_entry ''outer'' None, example_entry ''inner'' None], ''inner'')"
  by (simp add: RewindCallStack_eval)

lemma rewind_frame_unresolved:
  "symFromAddr frame = None \<or> symGetLineFromAddr64 frame = None \<Longrightarrow>
   rewind_frame frame i st = st\<lparr>missingFrames := missingFrames st @ [int i]\<rparr>"
  by (auto simp: rewind_frame_def split: option.splits)

lemma rewind_frame_emitted_omitted:
  "frame_emitted frame \<Longrightarrow>
   map (\<lambda>e. entry_frames_omitted e = None) (result (rewind_frame frame i st)) =
     map (\<lambda>e. entry_frames_omitted e = None) (result st) @ [missingFrames st = []] \<and>
   missingFrames (rewind_frame frame i st) = [] \<and>
   length (result (rewind_frame frame i st)) = Suc (length (result st))"
  by (auto simp: frame_emitted_def rewind_frame_def Let_def split: option.splits)

text \<open>
  Claim C4 (as amended). For a capture of ten frames of which exactly frames 3, 4 and 5
  fail to resolve (skip count 0, no frame in the crash manager's own file),
  \<^verbatim>\<open>RewindCallStack\<close> emits seven entries, one for each resolved frame and none for a
  failure, in the order 9, 8, 7, 6, 2, 1, 0; the entry of frame 2, the first frame
  resolved after the gap, carries a \<^verbatim>\<open>"frames omitted"\<close> attribute and no other entry
  does. (What the attribute holds is not part of the statement.)
\<close>

theorem RewindCallStack_gap_is_absorbed:
  assumes "captureAvailable p"
    and "callers_stack p = [f0, f1, f2, f3, f4, f5, f6, f7, f8, f9]"
    and "frame_emitted f0" and "frame_emitted f1" and "frame_emitted f2"
    and "symFromAddr f3 = None \<or> symGetLineFromAddr64 f3 = None"
    and "symFromAddr f4 = None \<or> symGetLineFromAddr64 f4 = None"
    and "symFromAddr f5 = None \<or> symGetLineFromAddr64 f5 = None"
    and "frame_emitted f6" and "frame_emitted f7" and "frame_emitted f8" and "frame_emitted f9"
  shows "\<exists>entries.
     RewindCallStack p 0 crashedMethod0 = Inr (entries, frame_function f0) \<and>
     length entries = 7 \<and>
     map entry_function entries = map frame_function [f9, f8, f7, f6, f2, f1, f0] \<and>
     map (\<lambda>e. entry_frames_omitted e = None) entries =
       [True, True, True, True, False, True, True]"
proof -
  define st where "st =
    rewind_frame f0 0 (rewind_frame f1 1 (rewind_frame f2 2 (rewind_frame f3 3
      (rewind_frame f4 4 (rewind_frame f5 5 (rewind_frame f6 6 (rewind_frame f7 7
        (rewind_frame f8 8 (rewind_frame f9 9
          \<lparr>missingFrames = [], result = [], crashedMethod = crashedMethod0\<rparr>)))))))))"
  have run: "RewindCallStack p 0 crashedMethod0 = Inr (result st, crashedMethod st)"
    unfolding st_def
    by (simp add: RewindCallStack_def kMaxCallers_def MAX_CALLERS_SHOWN_def assms(1) assms(2)
        eval_nat_numeral)
  note emitted = assms(3-5) assms(9-12)
  note unresolved = assms(6-8)
  have crashed: "crashedMethod st = frame_function f0"
    unfolding st_def using rewind_frame_emitted [OF assms(3)] by simp
  have names: "map entry_function (result st) = map frame_function [f9, f8, f7, f6, f2, f1, f0]"
    unfolding st_def
    by (simp add: emitted [THEN rewind_frame_emitted] unresolved [THEN rewind_frame_unresolved])
  have omitted: "map (\<lambda>e. entry_frames_omitted e = None) (result st) =
      [True, True, True, True, False, True, True]"
    unfolding st_def
    by (simp add: emitted [THEN rewind_frame_emitted_omitted]
        unresolved [THEN rewind_frame_unresolved])
  have "length (map entry_function (result st)) = 7"
    unfolding names by simp
  then have "length (result st) = 7" by simp
  with run crashed names omitted
  have "RewindCallStack p 0 crashedMethod0 = Inr (result st, frame_function f0) \<and>
     length (result st) = 7 \<and>
     map entry_function (result st) = map frame_function [f9, f8, f7, f6, f2, f1, f0] \<and>
     map (\<lambda>e. entry_frames_omitted e = None) (result st) =
       [True, True, True, True, False, True, True]"
    by simp
  then show ?thesis by (rule exI)
qed

theorem RewindCallStack_gap_is_absorbed_witness:
  "captureAvailable gap_env \<and>
   frame_emitted (example_frame ''f0'' True) \<and>
   (symFromAddr (example_frame ''f3'' False) = None \<or>
    symGetLineFromAddr64 (example_frame ''f3'' False) = None) \<and>
   (\<exists>entries.
      RewindCallStack gap_env 0 [] = Inr (entries, ''f0'') \<and>
      length entries = 7 \<and>
      map entry_function entries = [''f9'', ''f8'', ''f7'', ''f6'', ''f2'', ''f1'', ''f0''] \<and>
      map (\<lambda>e. entry_frames_omitted e = None) entries =
        [True, True, True, True, False, True, True])"
proof -
  have cap: "captureAvailable gap_env"
    by (simp add: gap_env_def example_env_def)
  have frames: "callers_stack gap_env =
      [example_frame ''f0'' True, example_frame ''f1'' True, example_frame ''f2'' True,
       example_frame ''f3'' False, example_frame ''f4'' False, example_frame ''f5'' False,
       example_frame ''f6'' True, example_frame ''f7'' True, example_frame ''f8'' True,
       example_frame ''f9'' True]"
    by (simp add: gap_env_def)
  have emitted: "\<And>name. frame_emitted (example_frame name True)"
    by (simp add: frame_emitted_def example_frame_def example_path_def fileName_of_def)
  have unresolved: "\<And>name. symFromAddr (example_frame name False) = None \<or>
      symGetLineFromAddr64 (example_frame name False) = None"
    by (simp add: example_frame_def)
  have names: "\<And>name. frame_function (example_frame name True) = name"
    by (simp add: frame_function_def example_frame_def)
  from RewindCallStack_gap_is_absorbed
    [OF cap frames emitted emitted emitted unresolved unresolved unresolved
      emitted emitted emitted emitted, of "[]"]
  have "\<exists>entries.
      RewindCallStack gap_env 0 [] = Inr (entries, ''f0'') \<and>
      length entries = 7 \<and>
      map entry_function entries = [''f9'', ''f8'', ''f7'', ''f6'', ''f2'', ''f1'', ''f0''] \<and>
      map (\<lambda>e. entry_frames_omitted e = None) entries =
        [True, True, True, True, False, True, True]"
    by (simp add: names)
  with cap emitted [of "''f0''"] unresolved [of "''f3''"] show ?thesis by simp
qed

text \<open>
  The claim as stated, with eight entries and the range ("3", "5"), fails on such a
  capture: the run of the code gives seven entries, and the value that it attaches to the
  entry of frame 2 is not that range.
\<close>

theorem RewindCallStack_gap_counterexample:
  "RewindCallStack gap_env 0 [] =
     Inr ([example_entry ''f9'' None, example_entry ''f8'' None, example_entry ''f7'' None,
           example_entry ''f6'' None, example_entry ''f2'' (Some (''3'', ''2'')),
           example_entry ''f1'' None, example_entry ''f0'' None], ''f0'')"
  by (simp add: gap_env_def RewindCallStack_eval)

section \<open>Effect of \<^verbatim>\<open>HandleCrash\<close> on the annotation map\<close>

lemma computed_pairs_keys: "fst ` set (computed_pairs steps s) \<subseteq> fst ` set steps"
proof (induction steps arbitrary: s)
  case Nil
  then show ?case by simp
next
  case (Cons step steps)
  obtain key compute where step: "step = (key, compute)" by (cases step)
  show ?case
  proof (cases "compute s")
    case None
    with step show ?thesis by simp
  next
    case (Some r)
    obtain v s' where r: "r = (v, s')" by (cases r)
    from Cons.IH [of "s'\<lparr>annotations := map_insert (annotations s') key v\<rparr>"] step Some r
    show ?thesis by auto
  qed
qed

lemma map_insert_keeps: "m k = Some v \<Longrightarrow> map_insert m k' v' k = Some v"
  by (cases "m k'") (auto simp: map_insert_def)

lemma map_insert_origin:
  "map_insert m k' v' k = Some v \<Longrightarrow> m k = Some v \<or> (k = k' \<and> v = v')"
  by (cases "m k'") (auto simp: map_insert_def split: if_splits)

lemma map_insert_dom: "k \<in> dom (map_insert m k v)"
  by (cases "m k") (auto simp: map_insert_def)

lemma insert_annotations_effect:
  assumes "\<forall>(key, compute) \<in> set steps. \<forall>s v s'. compute s = Some (v, s') \<longrightarrow>
      (\<exists>q. s' = s\<lparr>obsLogGeneral := q\<rparr>)"
    and "insert_annotations steps s = Inl t \<or> insert_annotations steps s = Inr t"
  shows "(\<exists>q m. t = s\<lparr>obsLogGeneral := q, annotations := m\<rparr>) \<and>
     (\<forall>k v. annotations s k = Some v \<longrightarrow> annotations t k = Some v) \<and>
     (\<forall>k v. annotations t k = Some v \<longrightarrow>
        annotations s k = Some v \<or> (k, v) \<in> set (computed_pairs steps s)) \<and>
     (insert_annotations steps s = Inr t \<longrightarrow> fst ` set steps \<subseteq> dom (annotations t))"
  using assms
proof (induction steps arbitrary: s)
  case Nil
  then have "t = s" by simp
  then have "t = s\<lparr>obsLogGeneral := obsLogGeneral s, annotations := annotations s\<rparr>" by simp
  then have "\<exists>q m. t = s\<lparr>obsLogGeneral := q, annotations := m\<rparr>" by blast
  with \<open>t = s\<close> show ?case by simp
next
  case (Cons step steps)
  obtain key compute where step: "step = (key, compute)" by (cases step)
  show ?case
  proof (cases "compute s")
    case None
    with Cons.prems(2) step have "t = s" by simp
    then have "t = s\<lparr>obsLogGeneral := obsLogGeneral s, annotations := annotations s\<rparr>" by simp
    then have "\<exists>q m. t = s\<lparr>obsLogGeneral := q, annotations := m\<rparr>" by blast
    with \<open>t = s\<close> None step show ?thesis by simp
  next
    case (Some r)
    obtain v s' where r: "r = (v, s')" by (cases r)
    from Cons.prems(1) step
    have "\<forall>s v s'. compute s = Some (v, s') \<longrightarrow> (\<exists>q. s' = s\<lparr>obsLogGeneral := q\<rparr>)"
      by simp
    with Some r obtain q where s': "s' = s\<lparr>obsLogGeneral := q\<rparr>"
      by blast
    let ?s = "s'\<lparr>annotations := map_insert (annotations s') key v\<rparr>"
    from Cons.prems(2) step Some r
    have run: "insert_annotations steps ?s = Inl t \<or> insert_annotations steps ?s = Inr t"
      by simp
    from Cons.prems(1)
    have frame: "\<forall>(key, compute) \<in> set steps. \<forall>s v s'. compute s = Some (v, s') \<longrightarrow>
        (\<exists>q. s' = s\<lparr>obsLogGeneral := q\<rparr>)"
      by simp
    from Cons.IH [OF frame run]
    have shape: "\<exists>q m. t = ?s\<lparr>obsLogGeneral := q, annotations := m\<rparr>"
      and keep: "\<forall>k v. annotations ?s k = Some v \<longrightarrow> annotations t k = Some v"
      and origin: "\<forall>k v. annotations t k = Some v \<longrightarrow>
        annotations ?s k = Some v \<or> (k, v) \<in> set (computed_pairs steps ?s)"
      and complete: "insert_annotations steps ?s = Inr t \<longrightarrow> fst ` set steps \<subseteq> dom (annotations t)"
      by blast+
    have ann: "annotations ?s = map_insert (annotations s) key v"
      by (simp add: s')
    have pairs: "computed_pairs (step # steps) s = (key, v) # computed_pairs steps ?s"
      using step Some r by simp
    have c1: "\<exists>q m. t = s\<lparr>obsLogGeneral := q, annotations := m\<rparr>"
    proof -
      from shape obtain q' m' where "t = ?s\<lparr>obsLogGeneral := q', annotations := m'\<rparr>" by blast
      then have "t = s\<lparr>obsLogGeneral := q', annotations := m'\<rparr>" by (simp add: s')
      then show ?thesis by blast
    qed
    have c2: "\<forall>k v. annotations s k = Some v \<longrightarrow> annotations t k = Some v"
      using keep unfolding ann by (blast intro: map_insert_keeps)
    have c3: "\<forall>k w. annotations t k = Some w \<longrightarrow>
        annotations s k = Some w \<or> (k, w) \<in> set (computed_pairs (step # steps) s)"
    proof (intro allI impI)
      fix k w assume "annotations t k = Some w"
      with origin have "annotations ?s k = Some w \<or> (k, w) \<in> set (computed_pairs steps ?s)"
        by blast
      then show "annotations s k = Some w \<or> (k, w) \<in> set (computed_pairs (step # steps) s)"
        unfolding ann pairs using map_insert_origin [of "annotations s" key v k w] by auto
    qed
    have c4: "insert_annotations (step # steps) s = Inr t \<longrightarrow>
        fst ` set (step # steps) \<subseteq> dom (annotations t)"
    proof
      assume "insert_annotations (step # steps) s = Inr t"
      with step Some r have "insert_annotations steps ?s = Inr t" by simp
      with complete have rest: "fst ` set steps \<subseteq> dom (annotations t)" by blast
      have "key \<in> dom (annotations ?s)" unfolding ann by (rule map_insert_dom)
      with keep have "key \<in> dom (annotations t)" by auto
      with rest step show "fst ` set (step # steps) \<subseteq> dom (annotations t)" by simp
    qed
    from c1 c2 c3 c4 show ?thesis by blast
  qed
qed

lemma insert_annotations_append:
  "insert_annotations (xs @ ys) s =
     (case insert_annotations xs s of Inl t \<Rightarrow> Inl t | Inr t \<Rightarrow> insert_annotations ys t)"
proof (induction xs arbitrary: s)
  case Nil
  then show ?case by simp
next
  case (Cons step xs)
  obtain key compute where step: "step = (key, compute)" by (cases step)
  show ?case
    using Cons.IH step by (cases "compute s") (auto split: prod.splits)
qed

lemma insert_annotations_total:
  "\<forall>(key, compute) \<in> set steps. \<forall>s. compute s \<noteq> None \<Longrightarrow>
   \<exists>t. insert_annotations steps s = Inr t"
proof (induction steps arbitrary: s)
  case Nil
  then show ?case by simp
next
  case (Cons step steps)
  obtain key compute where step: "step = (key, compute)" by (cases step)
  from Cons.prems step have "\<forall>s. compute s \<noteq> None" by simp
  then have "compute s \<noteq> None" by blast
  then obtain v s' where "compute s = Some (v, s')"
    by (cases "compute s") auto
  moreover from Cons.prems have "\<forall>(key, compute) \<in> set steps. \<forall>s. compute s \<noteq> None"
    by simp
  ultimately show ?case using Cons.IH step by simp
qed

lemma PrettyBytes_not_None: "PrettyBytes legacy bytes \<noteq> None"
  using PrettyBytes_Some [of legacy bytes] by auto

lemma obsLogGeneral_same: "\<exists>q. s = s\<lparr>obsLogGeneral := q\<rparr>"
  by (rule exI [of _ "obsLogGeneral s"]) simp

lemma RequestOBSLog_frame:
  "RequestOBSLog type s = (j, s') \<Longrightarrow> \<exists>q. s' = s\<lparr>obsLogGeneral := q\<rparr>"
proof (cases type)
  case Errors
  assume "RequestOBSLog type s = (j, s')"
  with Errors have "s' = s" by (simp add: RequestOBSLog_def)
  then show ?thesis using obsLogGeneral_same [of s] by simp
next
  case Warnings
  assume "RequestOBSLog type s = (j, s')"
  with Warnings have "s' = s" by (simp add: RequestOBSLog_def)
  then show ?thesis using obsLogGeneral_same [of s] by simp
next
  case General
  assume "RequestOBSLog type s = (j, s')"
  with General have "s' = s\<lparr>obsLogGeneral := snd (drain_general JNull (obsLogGeneral s))\<rparr>"
    by (auto simp: RequestOBSLog_def split: prod.splits)
  then show ?thesis by blast
qed

lemma annotation_steps_frame:
  "\<forall>(key, compute) \<in> set (annotation_steps p crashInfo callStack).
     \<forall>s v s'. compute s = Some (v, s') \<longrightarrow> (\<exists>q. s' = s\<lparr>obsLogGeneral := q\<rparr>)"
  unfolding annotation_steps_def
  by (simp add: obsLogGeneral_same split: prod.splits)
    (use obsLogGeneral_same RequestOBSLog_frame in blast)

lemma annotation_steps_keys: "map fst (annotation_steps p crashInfo callStack) = inserted_keys"
  by (simp add: annotation_steps_def inserted_keys_def)

lemma unconditional_steps_keys:
  "map fst (take 14 (annotation_steps p crashInfo callStack)) = unconditional_keys"
  by (simp add: annotation_steps_def unconditional_keys_def)

lemma unconditional_steps_total:
  "\<forall>(key, compute) \<in> set (take 14 (annotation_steps p crashInfo callStack)).
     \<forall>s. compute s \<noteq> None"
  unfolding annotation_steps_def
  by (simp add: PrettyBytes_Some split: prod.splits)

lemma RewindCallStack_skip0:
  "\<exists>callStack crashed. RewindCallStack p 0 crashedMethod0 = Inr (callStack, crashed)"
proof (cases "captureAvailable p")
  case False
  then show ?thesis by (simp add: RewindCallStack_def)
next
  case True
  define callers where "callers = take kMaxCallers (callers_stack p)"
  define frames where
    "frames = (if length callers < MAX_CALLERS_SHOWN then length callers else MAX_CALLERS_SHOWN)"
  define st where "st = \<lparr>missingFrames = [], result = [], crashedMethod = crashedMethod0\<rparr>"
  have "frames \<le> length callers"
    unfolding frames_def by (rule frames_le_captured)
  from RewindCallStack_loop_order [OF order.refl this, of st]
  obtain st' where "RewindCallStack_loop callers 0 frames st = Inr st'" by blast
  with True have "RewindCallStack p 0 crashedMethod0 = Inr (result st', crashedMethod st')"
    unfolding RewindCallStack_def Let_def callers_def [symmetric] frames_def [symmetric]
      st_def [symmetric]
    by simp
  then show ?thesis by blast
qed

lemma assemble_report_steps:
  "assemble_report p crashInfo s =
     insert_annotations (annotation_steps p crashInfo (callStack_of p)) s"
proof -
  obtain callStack crashed where "RewindCallStack p 0 [] = Inr (callStack, crashed)"
    using RewindCallStack_skip0 by blast
  then show ?thesis by (simp add: assemble_report_def callStack_of_def)
qed

lemma SetupCrashpad_annotations: "annotations (snd (SetupCrashpad p s)) = annotations s"
  by (simp add: SetupCrashpad_def Let_def)

lemma HandleCrash_annotations:
  assumes "\<not> insideCrashMethod s"
  shows "\<exists>t. (assemble_report p crashInfo (s\<lparr>insideCrashMethod := True\<rparr>) = Inl t \<or>
        assemble_report p crashInfo (s\<lparr>insideCrashMethod := True\<rparr>) = Inr t) \<and>
     annotations (outcome_state (HandleCrash p crashInfo callAbort s)) = annotations t"
proof (cases "assemble_report p crashInfo (s\<lparr>insideCrashMethod := True\<rparr>)")
  case (Inl t)
  with assms have "HandleCrash p crashInfo callAbort s = Aborted t"
    by (rule HandleCrash_fault)
  with Inl show ?thesis by (simp add: outcome_state_def)
next
  case (Inr t)
  with assms have "HandleCrash p crashInfo callAbort s =
     (if callAbort then Aborted (snd (SetupCrashpad p t))
      else Returned () (snd (SetupCrashpad p t)\<lparr>insideCrashMethod := False\<rparr>))"
    by (rule HandleCrash_complete)
  with Inr show ?thesis by (simp add: outcome_state_def SetupCrashpad_annotations)
qed

lemma HandleCrash_keeps_annotations:
  assumes "annotations s k = Some v"
  shows "annotations (outcome_state (HandleCrash p crashInfo callAbort s)) k = Some v"
proof (cases "insideCrashMethod s")
  case True
  with assms show ?thesis by (simp add: HandleCrash_latched outcome_state_def)
next
  case False
  let ?s = "s\<lparr>insideCrashMethod := True\<rparr>"
  from HandleCrash_annotations [OF False, of p crashInfo callAbort]
  obtain t where run: "assemble_report p crashInfo ?s = Inl t \<or> assemble_report p crashInfo ?s = Inr t"
    and final: "annotations (outcome_state (HandleCrash p crashInfo callAbort s)) = annotations t"
    by blast
  from insert_annotations_effect [OF annotation_steps_frame run [unfolded assemble_report_steps]]
  have "\<forall>k v. annotations ?s k = Some v \<longrightarrow> annotations t k = Some v" by blast
  with assms final show ?thesis by simp
qed

lemma HandleCrash_annotation_origin:
  assumes "\<not> insideCrashMethod s"
    and "annotations (outcome_state (HandleCrash p crashInfo callAbort s)) k = Some v"
  shows "annotations s k = Some v \<or> (k, v) \<in> set (computed_annotations p crashInfo s)"
proof -
  let ?s = "s\<lparr>insideCrashMethod := True\<rparr>"
  from HandleCrash_annotations [OF assms(1), of p crashInfo callAbort]
  obtain t where run: "assemble_report p crashInfo ?s = Inl t \<or> assemble_report p crashInfo ?s = Inr t"
    and final: "annotations (outcome_state (HandleCrash p crashInfo callAbort s)) = annotations t"
    by blast
  from insert_annotations_effect [OF annotation_steps_frame run [unfolded assemble_report_steps]]
  have "\<forall>k v. annotations t k = Some v \<longrightarrow> annotations ?s k = Some v \<or>
      (k, v) \<in> set (computed_pairs (annotation_steps p crashInfo (callStack_of p)) ?s)"
    by blast
  with assms(2) final show ?thesis by (simp add: computed_annotations_def)
qed

lemma computed_annotations_keys:
  "(k, v) \<in> set (computed_annotations p crashInfo s) \<Longrightarrow> k \<in> set inserted_keys"
proof -
  assume "(k, v) \<in> set (computed_annotations p crashInfo s)"
  then have "k \<in> fst ` set (computed_annotations p crashInfo s)" by force
  with computed_pairs_keys
  have "k \<in> fst ` set (annotation_steps p crashInfo (callStack_of p))"
    unfolding computed_annotations_def by blast
  then show ?thesis
    using annotation_steps_keys [of p crashInfo "callStack_of p"] by (metis set_map)
qed

lemma HandleCrash_annotations_upper:
  "dom (annotations (outcome_state (HandleCrash p crashInfo callAbort s)))
     \<subseteq> dom (annotations s) \<union> set inserted_keys"
proof (cases "insideCrashMethod s")
  case True
  then show ?thesis by (simp add: HandleCrash_latched outcome_state_def)
next
  case False
  show ?thesis
  proof
    fix k assume "k \<in> dom (annotations (outcome_state (HandleCrash p crashInfo callAbort s)))"
    then obtain v where "annotations (outcome_state (HandleCrash p crashInfo callAbort s)) k = Some v"
      by blast
    from HandleCrash_annotation_origin [OF False this]
    show "k \<in> dom (annotations s) \<union> set inserted_keys"
      using computed_annotations_keys by blast
  qed
qed

lemma unconditional_steps_run:
  "\<exists>t1. insert_annotations (take 14 (annotation_steps p crashInfo callStack)) s = Inr t1 \<and>
     set unconditional_keys \<subseteq> dom (annotations t1) \<and>
     (\<exists>q m. t1 = s\<lparr>obsLogGeneral := q, annotations := m\<rparr>) \<and>
     insert_annotations (annotation_steps p crashInfo callStack) s =
       insert_annotations (drop 14 (annotation_steps p crashInfo callStack)) t1"
proof -
  let ?steps = "annotation_steps p crashInfo callStack"
  from insert_annotations_total [OF unconditional_steps_total]
  obtain t1 where run: "insert_annotations (take 14 ?steps) s = Inr t1" by blast
  have frame: "\<forall>(key, compute) \<in> set (take 14 ?steps).
      \<forall>s v s'. compute s = Some (v, s') \<longrightarrow> (\<exists>q. s' = s\<lparr>obsLogGeneral := q\<rparr>)"
    using annotation_steps_frame [of p crashInfo callStack] set_take_subset [of 14 ?steps]
    by blast
  from insert_annotations_effect [OF frame disjI2 [OF run]] run
  have shape: "\<exists>q m. t1 = s\<lparr>obsLogGeneral := q, annotations := m\<rparr>"
    and keys: "fst ` set (take 14 ?steps) \<subseteq> dom (annotations t1)"
    by blast+
  have "set unconditional_keys = fst ` set (take 14 ?steps)"
    using unconditional_steps_keys [of p crashInfo callStack] by (metis set_map)
  with keys have k: "set unconditional_keys \<subseteq> dom (annotations t1)" by simp
  have "insert_annotations ?steps s = insert_annotations (take 14 ?steps @ drop 14 ?steps) s"
    by simp
  also have "\<dots> = insert_annotations (drop 14 ?steps) t1"
    by (simp only: insert_annotations_append run sum.case)
  finally show ?thesis using run k shape by blast
qed

lemma HandleCrash_unconditional_keys:
  assumes "\<not> insideCrashMethod s"
  shows "set unconditional_keys
     \<subseteq> dom (annotations (outcome_state (HandleCrash p crashInfo callAbort s)))"
proof -
  let ?s = "s\<lparr>insideCrashMethod := True\<rparr>"
  let ?steps = "annotation_steps p crashInfo (callStack_of p)"
  from HandleCrash_annotations [OF assms, of p crashInfo callAbort]
  obtain t where run: "assemble_report p crashInfo ?s = Inl t \<or> assemble_report p crashInfo ?s = Inr t"
    and final: "annotations (outcome_state (HandleCrash p crashInfo callAbort s)) = annotations t"
    by blast
  from unconditional_steps_run [of p crashInfo "callStack_of p" ?s]
  obtain t1 where keys: "set unconditional_keys \<subseteq> dom (annotations t1)"
    and rest: "insert_annotations ?steps ?s = insert_annotations (drop 14 ?steps) t1"
    by blast
  from run rest have run2: "insert_annotations (drop 14 ?steps) t1 = Inl t \<or>
      insert_annotations (drop 14 ?steps) t1 = Inr t"
    by (simp add: assemble_report_steps)
  have frame: "\<forall>(key, compute) \<in> set (drop 14 ?steps).
      \<forall>s v s'. compute s = Some (v, s') \<longrightarrow> (\<exists>q. s' = s\<lparr>obsLogGeneral := q\<rparr>)"
    using annotation_steps_frame [of p crashInfo "callStack_of p"] set_drop_subset [of 14 ?steps]
    by blast
  from insert_annotations_effect [OF frame run2]
  have "\<forall>k v. annotations t1 k = Some v \<longrightarrow> annotations t k = Some v" by blast
  with keys have "set unconditional_keys \<subseteq> dom (annotations t)" by blast
  with final show ?thesis by simp
qed

lemma computed_pairs_source:
  "(k, v) \<in> set (computed_pairs steps s) \<Longrightarrow>
   \<exists>compute s0 s1. (k, compute) \<in> set steps \<and> compute s0 = Some (v, s1)"
proof (induction steps arbitrary: s)
  case Nil
  then show ?case by simp
next
  case (Cons step steps)
  obtain key compute where step: "step = (key, compute)" by (cases step)
  show ?case
  proof (cases "compute s")
    case None
    with Cons.prems step show ?thesis by simp
  next
    case (Some r)
    obtain w s' where r: "r = (w, s')" by (cases r)
    from Cons.prems step Some r
    have "(k, v) = (key, w) \<or>
        (k, v) \<in> set (computed_pairs steps (s'\<lparr>annotations := map_insert (annotations s') key w\<rparr>))"
      by simp
    then show ?thesis
    proof
      assume "(k, v) = (key, w)"
      with step Some r have "(k, compute) \<in> set (step # steps) \<and> compute s = Some (v, s')"
        by simp
      then show ?thesis by blast
    next
      assume "(k, v) \<in> set (computed_pairs steps (s'\<lparr>annotations := map_insert (annotations s') key w\<rparr>))"
      from Cons.IH [OF this] show ?thesis by auto
    qed
  qed
qed

lemma computed_crash_reason:
  assumes "(''Crash reason'', v) \<in> set (computed_annotations p crashInfo s)"
  shows "v = crashInfo"
proof -
  from assms computed_pairs_source
  obtain compute s0 s1 where
    "(''Crash reason'', compute) \<in> set (annotation_steps p crashInfo (callStack_of p))"
    and "compute s0 = Some (v, s1)"
    unfolding computed_annotations_def by blast
  then show ?thesis by (auto simp: annotation_steps_def)
qed

lemma breadcrumbs_conversion_throws: "nlohmann_get_string (ComputeBreadcrumbs s) = None"
  by (simp add: ComputeBreadcrumbs_def push_back_all_null)

lemma assemble_report_nlohmann_faults:
  assumes "json_to_std_string p = nlohmann_get_string"
  shows "\<exists>q m. assemble_report p crashInfo s = Inl (s\<lparr>obsLogGeneral := q, annotations := m\<rparr>)"
proof -
  let ?steps = "annotation_steps p crashInfo (callStack_of p)"
  from unconditional_steps_run [of p crashInfo "callStack_of p" s]
  obtain t1 q m where shape: "t1 = s\<lparr>obsLogGeneral := q, annotations := m\<rparr>"
    and rest: "insert_annotations ?steps s = insert_annotations (drop 14 ?steps) t1"
    by blast
  have "insert_annotations (drop 14 ?steps) t1 = Inl t1"
    by (simp add: annotation_steps_def assms breadcrumbs_conversion_throws)
  with rest shape
  have "assemble_report p crashInfo s = Inl (s\<lparr>obsLogGeneral := q, annotations := m\<rparr>)"
    by (simp add: assemble_report_steps)
  then show ?thesis by (intro exI)
qed

lemma HandleCrash_nlohmann_aborts:
  assumes "\<not> insideCrashMethod s" and "json_to_std_string p = nlohmann_get_string"
  shows "\<exists>q m. HandleCrash p crashInfo callAbort s =
     Aborted (s\<lparr>insideCrashMethod := True, obsLogGeneral := q, annotations := m\<rparr>)"
proof -
  from assemble_report_nlohmann_faults [OF assms(2), of crashInfo "s\<lparr>insideCrashMethod := True\<rparr>"]
  obtain q m where "assemble_report p crashInfo (s\<lparr>insideCrashMethod := True\<rparr>) =
      Inl (s\<lparr>insideCrashMethod := True, obsLogGeneral := q, annotations := m\<rparr>)"
    by auto
  with assms(1) have "HandleCrash p crashInfo callAbort s =
      Aborted (s\<lparr>insideCrashMethod := True, obsLogGeneral := q, annotations := m\<rparr>)"
    by (rule HandleCrash_fault)
  then show ?thesis by blast
qed

lemma annotation_steps_total:
  assumes "\<forall>j. json_to_std_string p j \<noteq> None"
  shows "\<forall>(key, compute) \<in> set (annotation_steps p crashInfo callStack). \<forall>s. compute s \<noteq> None"
proof -
  from assms have "\<And>j. \<exists>str. json_to_std_string p j = Some str" by auto
  then show ?thesis
    unfolding annotation_steps_def
    by (simp add: PrettyBytes_Some split: prod.splits)
qed

lemma HandleExit_inactive: "\<not> obs_initialized p \<Longrightarrow> HandleExit p s = Returned () s"
  by (simp add: HandleExit_def)

lemma HandleExit_reports_if_conversion_returns:
  assumes "obs_initialized p" and "\<not> insideCrashMethod s"
    and "\<forall>j. json_to_std_string p j \<noteq> None"
  shows "\<exists>t. HandleExit p s = Returned () t \<and> \<not> insideCrashMethod t \<and>
     arguments t = arguments s @ [''--no-rate-limit''] \<and>
     set inserted_keys \<subseteq> dom (annotations t) \<and>
     (annotations s ''Crash reason'' = None \<longrightarrow> annotations t ''Crash reason'' = Some ''AtExit'')"
proof -
  let ?s = "s\<lparr>insideCrashMethod := True\<rparr>"
  let ?steps = "annotation_steps p ''AtExit'' (callStack_of p)"
  from insert_annotations_total [OF annotation_steps_total [OF assms(3)]]
  obtain t' where run: "insert_annotations ?steps ?s = Inr t'" by blast
  then have asm: "assemble_report p ''AtExit'' ?s = Inr t'"
    by (simp add: assemble_report_steps)
  from insert_annotations_effect [OF annotation_steps_frame disjI2 [OF run]] run
  have shape: "\<exists>q m. t' = ?s\<lparr>obsLogGeneral := q, annotations := m\<rparr>"
    and keys: "fst ` set ?steps \<subseteq> dom (annotations t')"
    by blast+
  let ?t = "snd (SetupCrashpad p t')\<lparr>insideCrashMethod := False\<rparr>"
  from assms(1) HandleCrash_complete [OF assms(2) asm, of False]
  have exit: "HandleExit p s = Returned () ?t" by (simp add: HandleExit_def)
  from shape have args: "arguments ?t = arguments s @ [''--no-rate-limit'']"
    by (auto simp: SetupCrashpad_def Let_def)
  have ann: "annotations ?t = annotations t'"
    by (simp add: SetupCrashpad_annotations)
  have "set inserted_keys = fst ` set ?steps"
    using annotation_steps_keys [of p "''AtExit''" "callStack_of p"] by (metis set_map)
  with keys ann have all: "set inserted_keys \<subseteq> dom (annotations ?t)" by simp
  have reason: "annotations s ''Crash reason'' = None \<longrightarrow>
      annotations ?t ''Crash reason'' = Some ''AtExit''"
  proof
    assume none: "annotations s ''Crash reason'' = None"
    have "''Crash reason'' \<in> set inserted_keys" by (simp add: inserted_keys_def)
    with all obtain v where v: "annotations ?t ''Crash reason'' = Some v" by blast
    with exit have "annotations (outcome_state (HandleCrash p ''AtExit'' False s)) ''Crash reason'' = Some v"
      using assms(1) by (simp add: HandleExit_def outcome_state_def)
    from HandleCrash_annotation_origin [OF assms(2) this] none
    have "(''Crash reason'', v) \<in> set (computed_annotations p ''AtExit'' s)" by simp
    then have "v = ''AtExit''" by (rule computed_crash_reason)
    with v show "annotations ?t ''Crash reason'' = Some ''AtExit''" by simp
  qed
  have clear: "\<not> insideCrashMethod ?t" by simp
  show ?thesis
  proof (intro exI conjI)
    show "HandleExit p s = Returned () ?t" by (rule exit)
    show "\<not> insideCrashMethod ?t" by (rule clear)
    show "arguments ?t = arguments s @ [''--no-rate-limit'']" by (rule args)
    show "set inserted_keys \<subseteq> dom (annotations ?t)" by (rule all)
    show "annotations s ''Crash reason'' = None \<longrightarrow>
        annotations ?t ''Crash reason'' = Some ''AtExit''"
      by (rule reason)
  qed
qed

section \<open>Claims about \<^verbatim>\<open>HandleCrash\<close> and \<^verbatim>\<open>HandleExit\<close>\<close>

text \<open>
  Claim C2. An invocation of \<^verbatim>\<open>HandleCrash\<close> that finds the latch set ends the process
  by \<^verbatim>\<open>abort\<close> at once and leaves the state, the annotation map included, as it found
  it. The latch is set in every state that the assembly passes through, so this is what
  happens to an invocation made while an earlier one is in progress, at whatever point of
  the assembly it is made; in particular, when a step of the assembly raises, the
  invocation made by the terminate handler aborts in the state that the assembly had
  reached. And an invocation that handles a fault (\<^verbatim>\<open>callAbort\<close> true) never returns, so
  no fault is processed after it; with the conversion of JSON values to strings that the
  JSON library documents, no invocation returns at all.
\<close>

theorem HandleCrash_reentrant_call_aborts:
  "(insideCrashMethod s \<longrightarrow> HandleCrash p crashInfo callAbort s = Aborted s) \<and>
   (insert_annotations (take n (annotation_steps p crashInfo callStack))
        (s\<lparr>insideCrashMethod := True\<rparr>) = Inr t \<longrightarrow>
      insideCrashMethod t \<and> HandleCrash p' crashInfo' callAbort' t = Aborted t) \<and>
   (\<not> insideCrashMethod s \<longrightarrow>
      assemble_report p crashInfo (s\<lparr>insideCrashMethod := True\<rparr>) = Inl t \<longrightarrow>
      HandleCrash p crashInfo callAbort s = Aborted t) \<and>
   (\<exists>u. HandleCrash p crashInfo True s = Aborted u) \<and>
   (json_to_std_string p = nlohmann_get_string \<longrightarrow>
      (\<exists>u. HandleCrash p crashInfo callAbort s = Aborted u))"
proof (intro conjI impI)
  assume "insideCrashMethod s"
  then show "HandleCrash p crashInfo callAbort s = Aborted s" by (rule HandleCrash_latched)
next
  let ?steps = "take n (annotation_steps p crashInfo callStack)"
  assume run: "insert_annotations ?steps (s\<lparr>insideCrashMethod := True\<rparr>) = Inr t"
  have "\<forall>(key, compute) \<in> set ?steps. \<forall>s v s'. compute s = Some (v, s') \<longrightarrow>
      insideCrashMethod s' = insideCrashMethod s"
    using annotation_steps_latch [of p crashInfo callStack]
      set_take_subset [of n "annotation_steps p crashInfo callStack"]
    by blast
  from insert_annotations_latch [OF this disjI2 [OF run]]
  show latch: "insideCrashMethod t" by simp
  then show "HandleCrash p' crashInfo' callAbort' t = Aborted t" by (rule HandleCrash_latched)
next
  assume "\<not> insideCrashMethod s"
    and "assemble_report p crashInfo (s\<lparr>insideCrashMethod := True\<rparr>) = Inl t"
  then show "HandleCrash p crashInfo callAbort s = Aborted t" by (rule HandleCrash_fault)
next
  show "\<exists>u. HandleCrash p crashInfo True s = Aborted u"
    by (rule HandleCrash_abort_never_returns)
next
  assume conv: "json_to_std_string p = nlohmann_get_string"
  show "\<exists>u. HandleCrash p crashInfo callAbort s = Aborted u"
  proof (cases "insideCrashMethod s")
    case True
    then show ?thesis by (simp add: HandleCrash_latched)
  next
    case False
    from HandleCrash_nlohmann_aborts [OF False conv, of crashInfo callAbort]
    show ?thesis by blast
  qed
qed

theorem HandleCrash_reentrant_call_aborts_witness:
  "insideCrashMethod (initial_state\<lparr>insideCrashMethod := True\<rparr>) \<and>
   HandleCrash example_env ''Direct call to std::terminate'' True
       (initial_state\<lparr>insideCrashMethod := True\<rparr>) =
     Aborted (initial_state\<lparr>insideCrashMethod := True\<rparr>) \<and>
   insert_annotations (take 1 (annotation_steps example_env ''crash'' []))
       (initial_state\<lparr>insideCrashMethod := True\<rparr>) =
     Inr (initial_state\<lparr>insideCrashMethod := True, annotations := [''Time elapsed: '' \<mapsto> ''75s'']\<rparr>) \<and>
   HandleCrash example_env ''Direct call to std::terminate'' True
       (initial_state\<lparr>insideCrashMethod := True, annotations := [''Time elapsed: '' \<mapsto> ''75s'']\<rparr>) =
     Aborted (initial_state\<lparr>insideCrashMethod := True,
       annotations := [''Time elapsed: '' \<mapsto> ''75s'']\<rparr>) \<and>
   \<not> insideCrashMethod initial_state \<and>
   (\<exists>t. assemble_report example_env ''crash'' (initial_state\<lparr>insideCrashMethod := True\<rparr>) = Inl t \<and>
      HandleCrash example_env ''crash'' False initial_state = Aborted t)"
proof -
  let ?s = "initial_state\<lparr>insideCrashMethod := True\<rparr>"
  let ?t = "initial_state\<lparr>insideCrashMethod := True, annotations := [''Time elapsed: '' \<mapsto> ''75s'']\<rparr>"
  have latched: "insideCrashMethod ?s" by simp
  have first: "insert_annotations (take 1 (annotation_steps example_env ''crash'' [])) ?s = Inr ?t"
    by (simp add: annotation_steps_def example_env_def initial_state_def map_insert_def
        to_string_int_def to_string_nat_digit to_string_nat_more digit_char_def)
  have clear: "\<not> insideCrashMethod initial_state" by (simp add: initial_state_def)
  have conv: "json_to_std_string example_env = nlohmann_get_string" by (simp add: example_env_def)
  from assemble_report_nlohmann_faults [OF conv, of "''crash''" ?s]
  obtain t where fault: "assemble_report example_env ''crash'' ?s = Inl t" by blast
  from latched
    HandleCrash_reentrant_call_aborts
      [of ?s example_env "''Direct call to std::terminate''" True 0 "[]" ?s]
  have a: "HandleCrash example_env ''Direct call to std::terminate'' True ?s = Aborted ?s"
    by blast
  from first
    HandleCrash_reentrant_call_aborts
      [of initial_state example_env "''crash''" False 1 "[]" ?t example_env
        "''Direct call to std::terminate''" True]
  have b: "HandleCrash example_env ''Direct call to std::terminate'' True ?t = Aborted ?t"
    by blast
  from clear fault
    HandleCrash_reentrant_call_aborts
      [of initial_state example_env "''crash''" False 0 "[]" t]
  have c: "HandleCrash example_env ''crash'' False initial_state = Aborted t"
    by blast
  from latched a first b clear fault c show ?thesis by blast
qed

text \<open>
  Claim C3 (as amended). An invocation of \<^verbatim>\<open>HandleCrash\<close> adds no key other than the
  sixteen keys "Time elapsed: " (with the colon and the space), "Status", "Leaks",
  "Total memory", "Total used memory", "Total SLOBS memory", "CPU usage", "OBS errors",
  "OBS warnings", "OBS log general", "Process List", "Manual callstack", "Crash reason",
  "Computer name", "Breadcrumbs", "Warnings"; and every invocation that passes the latch
  leaves the first fourteen of them in the map, whatever the platform queries answer.
\<close>

theorem HandleCrash_inserts_keys:
  "inserted_keys =
     [''Time elapsed: '', ''Status'', ''Leaks'', ''Total memory'', ''Total used memory'',
      ''Total SLOBS memory'', ''CPU usage'', ''OBS errors'', ''OBS warnings'',
      ''OBS log general'', ''Process List'', ''Manual callstack'', ''Crash reason'',
      ''Computer name'', ''Breadcrumbs'', ''Warnings''] \<and>
   unconditional_keys = take 14 inserted_keys \<and>
   dom (annotations (outcome_state (HandleCrash p crashInfo callAbort s)))
     \<subseteq> dom (annotations s) \<union> set inserted_keys \<and>
   (\<not> insideCrashMethod s \<longrightarrow>
      set unconditional_keys
        \<subseteq> dom (annotations (outcome_state (HandleCrash p crashInfo callAbort s))))"
proof (intro conjI impI)
  show "inserted_keys =
     [''Time elapsed: '', ''Status'', ''Leaks'', ''Total memory'', ''Total used memory'',
      ''Total SLOBS memory'', ''CPU usage'', ''OBS errors'', ''OBS warnings'',
      ''OBS log general'', ''Process List'', ''Manual callstack'', ''Crash reason'',
      ''Computer name'', ''Breadcrumbs'', ''Warnings'']"
    by (simp add: inserted_keys_def)
  show "unconditional_keys = take 14 inserted_keys"
    by (simp add: inserted_keys_def unconditional_keys_def)
  show "dom (annotations (outcome_state (HandleCrash p crashInfo callAbort s)))
     \<subseteq> dom (annotations s) \<union> set inserted_keys"
    by (rule HandleCrash_annotations_upper)
next
  assume "\<not> insideCrashMethod s"
  then show "set unconditional_keys
        \<subseteq> dom (annotations (outcome_state (HandleCrash p crashInfo callAbort s)))"
    by (rule HandleCrash_unconditional_keys)
qed

theorem HandleCrash_inserts_keys_witness:
  "\<not> insideCrashMethod initial_state \<and>
   set unconditional_keys
     \<subseteq> dom (annotations (outcome_state (HandleCrash example_env ''crash'' True initial_state))) \<and>
   dom (annotations (outcome_state (HandleCrash example_env ''crash'' True initial_state)))
     \<subseteq> set inserted_keys"
proof -
  have latch: "\<not> insideCrashMethod initial_state" by (simp add: initial_state_def)
  have "dom (annotations initial_state) = {}" by (simp add: initial_state_def)
  with latch HandleCrash_inserts_keys [of example_env "''crash''" True initial_state]
  show ?thesis by simp
qed

text \<open>
  The claim as stated names the key "Time elapsed"; after an invocation on the initial
  state that key is not in the map, and "Time elapsed: " is.
\<close>

theorem HandleCrash_time_elapsed_key_counterexample:
  "''Time elapsed'' \<notin>
     dom (annotations (outcome_state (HandleCrash example_env ''crash'' True initial_state))) \<and>
   ''Time elapsed: '' \<in>
     dom (annotations (outcome_state (HandleCrash example_env ''crash'' True initial_state)))"
proof
  have "dom (annotations initial_state) = {}" by (simp add: initial_state_def)
  moreover have "''Time elapsed'' \<notin> set inserted_keys" by (simp add: inserted_keys_def)
  ultimately show "''Time elapsed'' \<notin>
      dom (annotations (outcome_state (HandleCrash example_env ''crash'' True initial_state)))"
    using HandleCrash_annotations_upper [of example_env "''crash''" True initial_state] by blast
next
  have "\<not> insideCrashMethod initial_state" by (simp add: initial_state_def)
  moreover have "''Time elapsed: '' \<in> set unconditional_keys"
    by (simp add: unconditional_keys_def)
  ultimately show "''Time elapsed: '' \<in>
      dom (annotations (outcome_state (HandleCrash example_env ''crash'' True initial_state)))"
    using HandleCrash_unconditional_keys [of initial_state example_env "''crash''" True] by blast
qed







text \<open>
  Claim C7 says that at process exit with OBS still initialised \<^verbatim>\<open>HandleExit\<close> generates
  a report with the reason "AtExit" and that \<^verbatim>\<open>abort\<close> is not called. The code does
  otherwise. With no crash being handled,
  \<^verbatim>\<open>HandleExit\<close> calls \<^verbatim>\<open>HandleCrash("AtExit", false)\<close>. With the conversion of JSON
  values to strings that the JSON library documents, the insertion of "Breadcrumbs"
  raises, since \<^verbatim>\<open>ComputeBreadcrumbs\<close> returns an array or null and, unlike the
  insertions before it, the source does not call \<^verbatim>\<open>dump\<close> on it. So the call ends in
  \<^verbatim>\<open>abort\<close>, through the terminate handler and the latch, before \<^verbatim>\<open>SetupCrashpad\<close> is
  run: the handler is not restarted and "Breadcrumbs" is not inserted.
\<close>

theorem HandleExit_aborts_on_breadcrumbs:
  assumes "obs_initialized p" and "\<not> insideCrashMethod s"
    and "json_to_std_string p = nlohmann_get_string"
  shows "\<exists>t. HandleExit p s = Aborted t \<and> handlerStarts t = handlerStarts s \<and>
     arguments t = arguments s \<and> annotations t ''Breadcrumbs'' = annotations s ''Breadcrumbs''"
proof -
  from HandleCrash_nlohmann_aborts [OF assms(2) assms(3), of "''AtExit''" False]
  obtain q m where run: "HandleCrash p ''AtExit'' False s =
      Aborted (s\<lparr>insideCrashMethod := True, obsLogGeneral := q, annotations := m\<rparr>)"
    by blast
  let ?t = "s\<lparr>insideCrashMethod := True, obsLogGeneral := q, annotations := m\<rparr>"
  let ?s = "s\<lparr>insideCrashMethod := True\<rparr>"
  let ?steps = "annotation_steps p ''AtExit'' (callStack_of p)"
  have bc: "annotations ?t ''Breadcrumbs'' = annotations s ''Breadcrumbs''"
  proof (cases "annotations ?t ''Breadcrumbs''")
    case None
    have "annotations s ''Breadcrumbs'' = None"
    proof (rule ccontr)
      assume "annotations s ''Breadcrumbs'' \<noteq> None"
      then obtain v where "annotations s ''Breadcrumbs'' = Some v" by blast
      from HandleCrash_keeps_annotations [OF this, of p "''AtExit''" False] run None
      show False by (simp add: outcome_state_def)
    qed
    with None show ?thesis by simp
  next
    case (Some v)
    then have "annotations (outcome_state (HandleCrash p ''AtExit'' False s)) ''Breadcrumbs'' = Some v"
      by (simp add: run outcome_state_def)
    from HandleCrash_annotation_origin [OF assms(2) this]
    have "annotations s ''Breadcrumbs'' = Some v \<or>
        (''Breadcrumbs'', v) \<in> set (computed_annotations p ''AtExit'' s)" .
    moreover have "(''Breadcrumbs'', v) \<notin> set (computed_annotations p ''AtExit'' s)"
    proof
      assume "(''Breadcrumbs'', v) \<in> set (computed_annotations p ''AtExit'' s)"
      with computed_pairs_source
      obtain compute s0 s1 where "(''Breadcrumbs'', compute) \<in> set ?steps"
        and "compute s0 = Some (v, s1)"
        unfolding computed_annotations_def by blast
      then show False
        by (auto simp: annotation_steps_def assms(3) breadcrumbs_conversion_throws)
    qed
    ultimately show ?thesis using Some by simp
  qed
  from assms(1) run have "HandleExit p s = Aborted ?t" by (simp add: HandleExit_def)
  moreover have "handlerStarts ?t = handlerStarts s" "arguments ?t = arguments s" by simp_all
  ultimately show ?thesis using bc by blast
qed

theorem HandleExit_aborts_on_breadcrumbs_witness:
  "obs_initialized example_env \<and> \<not> insideCrashMethod initial_state \<and>
   json_to_std_string example_env = nlohmann_get_string \<and>
   (\<exists>t. HandleExit example_env initial_state = Aborted t \<and> handlerStarts t = [] \<and>
      arguments t = [] \<and> annotations t ''Breadcrumbs'' = None)"
proof -
  have obs: "obs_initialized example_env" by (simp add: example_env_def)
  have latch: "\<not> insideCrashMethod initial_state" by (simp add: initial_state_def)
  have conv: "json_to_std_string example_env = nlohmann_get_string" by (simp add: example_env_def)
  from HandleExit_aborts_on_breadcrumbs [OF obs latch conv]
  have "\<exists>t. HandleExit example_env initial_state = Aborted t \<and> handlerStarts t = [] \<and>
      arguments t = [] \<and> annotations t ''Breadcrumbs'' = None"
    by (simp add: initial_state_def)
  with obs latch conv show ?thesis by blast
qed

end
